theory Spec2Isabelle
  imports Main "HOL-Library.Log_Nat" "HOL-Library.Sublist"
begin

section \<open>Data model (types.ts)\<close>

datatype AIPersona = Logos | Pathos

datatype DebatePhase = IDLE | ANALYZING | DEBATING | VOTING | SCORING | FINISHED

text \<open>The \<open>persona\<close> field of a message is \<open>AIPersona | 'SYSTEM'\<close>.\<close>

datatype speaker = Persona AIPersona | SYSTEM

record Source =
  uri :: string
  title :: string

text \<open>
  \<open>isStreaming\<close> and \<open>sources\<close> are optional fields; \<open>None\<close> is JavaScript's
  \<open>undefined\<close>. The field \<open>text\<close> is called \<open>msg_text\<close> here.
\<close>

record DebateMessage =
  persona :: speaker
  msg_text :: string
  isStreaming :: "bool option"
  sources :: "Source list option"

record ArgumentComparison =
  topic :: string
  logosStance :: string
  pathosStance :: string

record Summary =
  logosSummary :: "string list"
  pathosSummary :: "string list"

text \<open>
  A JavaScript number: a finite value, represented by the rational it denotes, one of the
  two infinities, or \<open>NaN\<close>. The two zeros, which compare equal and which the program
  never divides by, are one value.
\<close>

datatype number = Finite rat | PosInfinity | NegInfinity | NaN

text \<open>The field \<open>notes\<close> is called \<open>score_notes\<close> here.\<close>

record Score =
  criteria :: string
  score :: number
  score_notes :: string

text \<open>The field \<open>winner\<close> is \<open>AIPersona | 'TIE'\<close>.\<close>

datatype verdict = Winner AIPersona | TIE

record DebateScore =
  logos_scores :: "Score list"
  pathos_scores :: "Score list"
  finalScores :: "AIPersona \<Rightarrow> number"
  winner :: verdict

text \<open>A thrown \<open>Error\<close> object, with its message.\<close>

datatype js_error = Error string

fun message :: "js_error \<Rightarrow> string" where
  "message (Error m) = m"

fun persona_name :: "AIPersona \<Rightarrow> string" where
  "persona_name Logos = ''Logos''"
| "persona_name Pathos = ''Pathos''"

fun speaker_name :: "speaker \<Rightarrow> string" where
  "speaker_name (Persona p) = persona_name p"
| "speaker_name SYSTEM = ''SYSTEM''"

section \<open>Component state of \<open>App\<close> (App.tsx)\<close>

text \<open>
  Calls to the external capabilities and to the console are recorded in a trace, in the
  order in which the code makes them.
\<close>

datatype action =
    CallTurnStream AIPersona string
  | CallSummary
  | CallComparison
  | CallGenerateSpeech nat
  | CallPlayAudio nat
  | SourceStart
  | SourceStop
  | ConsoleError string

text \<open>
  The \<open>useState\<close> cells and the \<open>useRef\<close> cells of the component. \<open>skipTrigger\<close> holds
  whether \<open>skipTrigger.current\<close> is a resolver (\<open>True\<close>) or \<open>null\<close>; \<open>interruptPromise\<close>
  is the state of the promise that resolver settles: \<open>None\<close> while pending, \<open>Some v\<close>
  once resolved with \<open>v\<close>. \<open>audioContextRef\<close> and \<open>currentAudioSourceRef\<close> hold whether
  the reference is non-null. \<open>inflightDecodes\<close> counts the calls of \<open>playAudio\<close> that the
  loop has stopped waiting for while their \<open>decodeAudioData\<close> was still pending.
\<close>

record app_state =
  phase :: DebatePhase
  question :: string
  sides :: "AIPersona \<Rightarrow> string"
  messages :: "DebateMessage list"
  error :: "string option"
  statusText :: string
  speakingMessageIndex :: "nat option"
  summary :: "Summary option"
  comparison :: "ArgumentComparison list option"
  userVote :: "AIPersona option"
  scoreData :: "DebateScore option"
  isSkippedRef :: bool
  skipTrigger :: bool
  interruptPromise :: "string option"
  audioContextRef :: bool
  currentAudioSourceRef :: bool
  inflightDecodes :: nat
  trace :: "action list"

definition log_action :: "action \<Rightarrow> app_state \<Rightarrow> app_state" where
  "log_action a s = s\<lparr>trace := trace s @ [a]\<rparr>"

definition debateTurns :: "(AIPersona \<times> string) list" where
  "debateTurns =
     [(Logos, ''OPENING''), (Pathos, ''OPENING''),
      (Logos, ''REBUTTAL''), (Pathos, ''REBUTTAL''),
      (Logos, ''CLOSING''), (Pathos, ''CLOSING'')]"

section \<open>Part 1 of \<open>runDebate\<close>: generating the debate text\<close>

text \<open>
  One chunk of the streamed response. \<open>chunk_text\<close> is the value of the getter
  \<open>chunk.text\<close>, a string, or \<open>undefined\<close> (\<open>None\<close>) for a chunk without a text part, such
  as one that carries grounding metadata only. \<open>groundingChunks\<close> is the value of
  \<open>chunk.candidates?.[0]?.groundingMetadata?.groundingChunks\<close> (\<open>None\<close> when any link of
  the chain is missing); each grounding chunk is represented by its optional \<open>web\<close>
  field, whose \<open>uri\<close> and \<open>title\<close> are optional as well.
\<close>

record WebSource =
  web_uri :: "string option"
  web_title :: "string option"

record StreamChunk =
  chunk_text :: "string option"
  groundingChunks :: "WebSource option list option"

text \<open>
  A stream delivers its chunks and then either ends (\<open>None\<close>) or throws (\<open>Some e\<close>).
\<close>

record turn_stream =
  chunks :: "StreamChunk list"
  failure :: "js_error option"

text \<open>The locals \<open>fullText\<close>, \<open>sources\<close> and \<open>sourceUris\<close> of one turn.\<close>

record reducer =
  fullText :: string
  turn_sources :: "Source list"
  sourceUris :: "string set"

definition reducer_init :: reducer where
  "reducer_init = \<lparr>fullText = [], turn_sources = [], sourceUris = {}\<rparr>"

text \<open>\<open>source.title || source.uri\<close>: the title unless it is missing or empty.\<close>

definition title_or_uri :: "string option \<Rightarrow> string \<Rightarrow> string" where
  "title_or_uri t u = (case t of None \<Rightarrow> u | Some t' \<Rightarrow> if t' \<noteq> [] then t' else u)"

text \<open>
  The body of the inner loop over \<open>groundingChunks\<close>:
  \<open>if (source && source.uri && !sourceUris.has(source.uri)) { push; add }\<close>.
  An empty string is falsy.
\<close>

definition pushSource :: "reducer \<Rightarrow> WebSource option \<Rightarrow> reducer" where
  "pushSource r groundingChunk =
     (case groundingChunk of
        None \<Rightarrow> r
      | Some source \<Rightarrow>
          (case web_uri source of
             None \<Rightarrow> r
           | Some u \<Rightarrow>
               if u \<noteq> [] \<and> u \<notin> sourceUris r
               then r\<lparr>turn_sources :=
                        turn_sources r @ [\<lparr>uri = u, title = title_or_uri (web_title source) u\<rparr>],
                      sourceUris := insert u (sourceUris r)\<rparr>
               else r))"

text \<open>\<open>sources.length > 0 ? sources : undefined\<close>\<close>

definition sources_field :: "Source list \<Rightarrow> Source list option" where
  "sources_field xs = (if xs \<noteq> [] then Some xs else None)"

text \<open>
  What \<open>fullText += chunk.text\<close> appends: \<open>+=\<close> on a string converts its operand to a
  string, and the string of \<open>undefined\<close> is the word "undefined".
\<close>

definition string_of_text :: "string option \<Rightarrow> string" where
  "string_of_text v = (case v of None \<Rightarrow> ''undefined'' | Some str \<Rightarrow> str)"

text \<open>
  The body of \<open>for await (const chunk of stream)\<close>, without the display update:
  the text is appended, then the grounding chunks are folded in.
\<close>

definition reduceChunk :: "reducer \<Rightarrow> StreamChunk \<Rightarrow> reducer" where
  "reduceChunk r chunk =
     (let r1 = r\<lparr>fullText := fullText r @ string_of_text (chunk_text chunk)\<rparr>
      in case groundingChunks chunk of
           None \<Rightarrow> r1
         | Some gs \<Rightarrow> foldl pushSource r1 gs)"

text \<open>
  The display update after each chunk: the message at \<open>placeholderIndex\<close> gets the text
  and the sources accumulated so far.
\<close>

definition showProgress :: "nat \<Rightarrow> reducer \<Rightarrow> app_state \<Rightarrow> app_state" where
  "showProgress placeholderIndex r s =
     s\<lparr>messages :=
         list_update (messages s) placeholderIndex
           ((messages s ! placeholderIndex)
              \<lparr>msg_text := fullText r, sources := sources_field (turn_sources r)\<rparr>)\<rparr>"

fun consumeStream :: "nat \<Rightarrow> StreamChunk list \<Rightarrow> reducer \<times> app_state \<Rightarrow> reducer \<times> app_state" where
  "consumeStream placeholderIndex [] (r, s) = (r, s)"
| "consumeStream placeholderIndex (chunk # rest) (r, s) =
     (let r' = reduceChunk r chunk
      in consumeStream placeholderIndex rest (r', showProgress placeholderIndex r' s))"

definition finalMessage :: "AIPersona \<Rightarrow> reducer \<Rightarrow> DebateMessage" where
  "finalMessage p r =
     \<lparr>persona = Persona p, msg_text = fullText r, isStreaming = Some False,
      sources = sources_field (turn_sources r)\<rparr>"

text \<open>
  The capabilities of \<open>services/geminiService\<close>, as the environment of a run. Each
  returns its result (\<open>Inr\<close>) or rejects (\<open>Inl\<close>). \<open>newAudioContext\<close> is \<open>Some e\<close> when the
  \<open>AudioContext\<close> constructor throws \<open>e\<close>; \<open>decode\<close> is \<open>Some e\<close> when decoding the base64
  payload throws \<open>e\<close>.
\<close>

record env =
  getDebateSides :: "string \<Rightarrow> js_error + string \<times> string"
  generateDebateTurnStream ::
    "DebateMessage list \<Rightarrow> AIPersona \<Rightarrow> string \<Rightarrow> string \<Rightarrow> string \<Rightarrow> js_error + turn_stream"
  generateDebateSummary :: "DebateMessage list \<Rightarrow> js_error + Summary"
  generateArgumentComparison :: "DebateMessage list \<Rightarrow> js_error + ArgumentComparison list"
  generateDebateScore :: "DebateMessage list \<Rightarrow> string \<Rightarrow> js_error + Score list \<times> Score list"
  newAudioContext :: "js_error option"
  decode :: "string \<Rightarrow> js_error option"

text \<open>The locals \<open>generatedMessages\<close> and \<open>currentHistory\<close> of \<open>runDebate\<close>.\<close>

record script =
  generatedMessages :: "DebateMessage list"
  currentHistory :: "DebateMessage list"

text \<open>
  One iteration of \<open>for (const turn of debateTurns)\<close>. An exception leaves the loop and
  \<open>runDebate\<close>; the state reached so far stays.
\<close>

definition generateTurn ::
  "env \<Rightarrow> nat \<Rightarrow> (AIPersona \<Rightarrow> string) \<Rightarrow> string \<Rightarrow> AIPersona \<times> string \<Rightarrow>
   script \<times> app_state \<Rightarrow> (js_error + script) \<times> app_state" where
  "generateTurn e nsys currentSides currentQuestion turn = (\<lambda>(sc, s).
     (case turn of (p, stage) \<Rightarrow>
        let side = currentSides p;
            tempMessage = \<lparr>persona = Persona p, msg_text = ''...'', isStreaming = Some True,
                           sources = None\<rparr>;
            placeholderIndex = nsys + length (generatedMessages sc);
            s1 = s\<lparr>messages := messages s @ [tempMessage]\<rparr>;
            s2 = log_action (CallTurnStream p stage) s1
        in case generateDebateTurnStream e (currentHistory sc) p side stage currentQuestion of
             Inl err \<Rightarrow> (Inl err, s2)
           | Inr stream \<Rightarrow>
               (case consumeStream placeholderIndex (chunks stream) (reducer_init, s2) of
                  (r, s3) \<Rightarrow>
                    (case failure stream of
                       Some err \<Rightarrow> (Inl err, s3)
                     | None \<Rightarrow>
                         let fm = finalMessage p r
                         in (Inr \<lparr>generatedMessages = generatedMessages sc @ [fm],
                                  currentHistory = currentHistory sc @ [fm]\<rparr>,
                             s3\<lparr>messages := list_update (messages s3) placeholderIndex fm\<rparr>)))))"

fun generateTurns ::
  "env \<Rightarrow> nat \<Rightarrow> (AIPersona \<Rightarrow> string) \<Rightarrow> string \<Rightarrow> (AIPersona \<times> string) list \<Rightarrow>
   script \<times> app_state \<Rightarrow> (js_error + script) \<times> app_state" where
  "generateTurns e nsys currentSides currentQuestion [] (sc, s) = (Inr sc, s)"
| "generateTurns e nsys currentSides currentQuestion (turn # rest) (sc, s) =
     (case generateTurn e nsys currentSides currentQuestion turn (sc, s) of
        (Inl err, s') \<Rightarrow> (Inl err, s')
      | (Inr sc', s') \<Rightarrow> generateTurns e nsys currentSides currentQuestion rest (sc', s'))"

definition generateScript ::
  "env \<Rightarrow> DebateMessage list \<Rightarrow> (AIPersona \<Rightarrow> string) \<Rightarrow> string \<Rightarrow> app_state \<Rightarrow>
   (js_error + script) \<times> app_state" where
  "generateScript e systemMessages currentSides currentQuestion s =
     generateTurns e (length systemMessages) currentSides currentQuestion debateTurns
       (\<lparr>generatedMessages = [], currentHistory = systemMessages\<rparr>,
        s\<lparr>statusText := ''Generating debate script...''\<rparr>)"

text \<open>The requests for a turn's text that a trace records, in order.\<close>

fun turn_request :: "action \<Rightarrow> (AIPersona \<times> string) list" where
  "turn_request (CallTurnStream p stage) = [(p, stage)]"
| "turn_request _ = []"

definition requested :: "action list \<Rightarrow> (AIPersona \<times> string) list" where
  "requested tr = concat (map turn_request tr)"

text \<open>The state of a freshly mounted component: the initial values of its cells.\<close>

definition initial_state :: app_state where
  "initial_state =
     \<lparr>phase = IDLE, question = [], sides = (\<lambda>p. []), messages = [], error = None,
      statusText = [],
      speakingMessageIndex = None, summary = None, comparison = None, userVote = None,
      scoreData = None, isSkippedRef = False, skipTrigger = False, interruptPromise = None,
      audioContextRef = False, currentAudioSourceRef = False, inflightDecodes = 0,
      trace = []\<rparr>"

subsection \<open>Properties of the stream reducer and the turn loop\<close>

lemma fullText_pushSource: "fullText (pushSource r g) = fullText r"
  by (simp add: pushSource_def split: option.splits)

lemma fullText_foldl_pushSource: "fullText (foldl pushSource r gs) = fullText r"
  by (induction gs arbitrary: r) (simp_all add: fullText_pushSource)

lemma fullText_reduceChunk:
  "fullText (reduceChunk r c) = fullText r @ string_of_text (chunk_text c)"
  by (simp add: reduceChunk_def Let_def fullText_foldl_pushSource split: option.splits)

lemma fullText_foldl_reduceChunk:
  "fullText (foldl reduceChunk r cs) =
     fullText r @ concat (map (\<lambda>c. string_of_text (chunk_text c)) cs)"
  by (induction cs arbitrary: r) (simp_all add: fullText_reduceChunk)

lemma fst_consumeStream: "fst (consumeStream i cs (r, s)) = foldl reduceChunk r cs"
  by (induction cs arbitrary: r s) (simp_all add: Let_def)

lemma trace_showProgress: "trace (showProgress i r s) = trace s"
  by (simp add: showProgress_def)

lemma trace_consumeStream: "trace (snd (consumeStream i cs (r, s))) = trace s"
  by (induction cs arbitrary: r s) (simp_all add: Let_def trace_showProgress)

lemma messages_consumeStream:
  "\<exists>m. persona m = persona (messages s ! i) \<and>
       messages (snd (consumeStream i cs (r, s))) = (messages s)[i := m]"
proof (induction cs arbitrary: r s)
  case Nil
  show ?case by (rule exI [of _ "messages s ! i"]) simp
next
  case (Cons c cs)
  let ?r = "reduceChunk r c"
  let ?s = "showProgress i ?r s"
  from Cons.IH [where r = ?r and s = ?s] obtain m where
    m: "persona m = persona (messages ?s ! i)"
       "messages (snd (consumeStream i cs (?r, ?s))) = (messages ?s)[i := m]"
    by blast
  show ?case
  proof (cases "i < length (messages s)")
    case True
    with m show ?thesis
      by (intro exI [of _ m]) (simp add: Let_def showProgress_def)
  next
    case False
    then have "length (messages s) \<le> i" by simp
    with m show ?thesis
      by (intro exI [of _ m]) (simp add: Let_def showProgress_def list_update_beyond)
  qed
qed


lemma requested_append: "requested (xs @ ys) = requested xs @ requested ys"
  by (simp add: requested_def)

lemma consumeStream_cases:
  obtains r' s' where "consumeStream i cs (r, s) = (r', s')"
    "r' = foldl reduceChunk r cs" "trace s' = trace s"
    "\<exists>m. persona m = persona (messages s ! i) \<and> messages s' = (messages s)[i := m]"
proof -
  obtain r' s' where eq: "consumeStream i cs (r, s) = (r', s')" by (cases "consumeStream i cs (r, s)")
  have "r' = foldl reduceChunk r cs" using fst_consumeStream [of i cs r s] eq by simp
  moreover have "trace s' = trace s" using trace_consumeStream [of i cs r s] eq by simp
  moreover have "\<exists>m. persona m = persona (messages s ! i) \<and> messages s' = (messages s)[i := m]"
    using messages_consumeStream [of s i cs r] eq by simp
  ultimately show ?thesis using that eq by blast
qed

lemma generateTurn_Inr:
  assumes "generateTurn e n stance q (p, stage) (sc, s) = (Inr sc', s')"
  shows "\<exists>stream. generateDebateTurnStream e (currentHistory sc) p (stance p) stage q = Inr stream \<and>
           failure stream = None \<and>
           (\<exists>fm. fm = finalMessage p (foldl reduceChunk reducer_init (chunks stream)) \<and>
            generatedMessages sc' = generatedMessages sc @ [fm] \<and>
            currentHistory sc' = currentHistory sc @ [fm] \<and>
            requested (trace s') = requested (trace s) @ [(p, stage)] \<and>
            (length (messages s) = n + length (generatedMessages sc) \<longrightarrow>
               messages s' = messages s @ [fm]))"
proof (cases "generateDebateTurnStream e (currentHistory sc) p (stance p) stage q")
  case (Inl err)
  with assms show ?thesis by (simp add: generateTurn_def Let_def)
next
  case (Inr stream)
  let ?i = "n + length (generatedMessages sc)"
  let ?tmp = "\<lparr>persona = Persona p, msg_text = ''...'', isStreaming = Some True, sources = None\<rparr>"
  let ?s2 = "log_action (CallTurnStream p stage) (s\<lparr>messages := messages s @ [?tmp]\<rparr>)"
  obtain r s3 where cs: "consumeStream ?i (chunks stream) (reducer_init, ?s2) = (r, s3)"
    and r: "r = foldl reduceChunk reducer_init (chunks stream)"
    and tr: "trace s3 = trace ?s2"
    and ms: "\<exists>m. persona m = persona (messages ?s2 ! ?i) \<and> messages s3 = (messages ?s2)[?i := m]"
    by (rule consumeStream_cases)
  from assms Inr cs have nf: "failure stream = None"
    by (simp add: generateTurn_def Let_def split: option.splits)
  from assms Inr cs nf have sc': "sc' = \<lparr>generatedMessages = generatedMessages sc @ [finalMessage p r],
        currentHistory = currentHistory sc @ [finalMessage p r]\<rparr>"
    and s': "s' = s3\<lparr>messages := (messages s3)[?i := finalMessage p r]\<rparr>"
    by (simp_all add: generateTurn_def Let_def)
  have "requested (trace s') = requested (trace s) @ [(p, stage)]"
    using s' tr by (simp add: log_action_def requested_append) (simp add: requested_def)
  moreover have "messages s' = messages s @ [finalMessage p r]"
    if "length (messages s) = ?i"
    using ms s' that [symmetric] by (auto simp: log_action_def)
  ultimately show ?thesis
    using Inr nf sc' r by simp
qed

lemma generateTurn_Inl:
  assumes "generateTurn e n stance q (p, stage) (sc, s) = (Inl err, s')"
  shows "requested (trace s') = requested (trace s) @ [(p, stage)] \<and>
         (length (messages s) = n + length (generatedMessages sc) \<longrightarrow>
            (\<exists>m. persona m = Persona p \<and> messages s' = messages s @ [m]))"
proof (cases "generateDebateTurnStream e (currentHistory sc) p (stance p) stage q")
  case (Inl err')
  with assms show ?thesis
    by (auto simp: generateTurn_def Let_def log_action_def requested_append requested_def)
next
  case (Inr stream)
  let ?i = "n + length (generatedMessages sc)"
  let ?tmp = "\<lparr>persona = Persona p, msg_text = ''...'', isStreaming = Some True, sources = None\<rparr>"
  let ?s2 = "log_action (CallTurnStream p stage) (s\<lparr>messages := messages s @ [?tmp]\<rparr>)"
  obtain r s3 where cs: "consumeStream ?i (chunks stream) (reducer_init, ?s2) = (r, s3)"
    and tr: "trace s3 = trace ?s2"
    and ms: "\<exists>m. persona m = persona (messages ?s2 ! ?i) \<and> messages s3 = (messages ?s2)[?i := m]"
    by (rule consumeStream_cases)
  from assms Inr cs have s': "s' = s3"
    by (simp add: generateTurn_def Let_def split: option.splits)
  have "requested (trace s') = requested (trace s) @ [(p, stage)]"
    using s' tr by (simp add: log_action_def requested_append) (simp add: requested_def)
  moreover have "\<exists>m. persona m = Persona p \<and> messages s' = messages s @ [m]"
    if "length (messages s) = ?i"
    using ms s' that [symmetric] by (auto simp: log_action_def)
  ultimately show ?thesis by simp
qed


lemma generateTurn_Inr_msg:
  assumes "generateTurn e n stance q (p, stage) (sc, s) = (Inr sc', s')"
  shows "\<exists>fm. persona fm = Persona p \<and>
           generatedMessages sc' = generatedMessages sc @ [fm] \<and>
           currentHistory sc' = currentHistory sc @ [fm] \<and>
           requested (trace s') = requested (trace s) @ [(p, stage)] \<and>
           (length (messages s) = n + length (generatedMessages sc) \<longrightarrow>
              messages s' = messages s @ [fm])"
  using generateTurn_Inr [OF assms]
  by (elim exE conjE) (simp add: finalMessage_def)

lemma generateTurn_ok:
  assumes "generateDebateTurnStream e (currentHistory sc) p (stance p) stage q = Inr stream"
    and "failure stream = None"
  shows "\<exists>s'. generateTurn e n stance q (p, stage) (sc, s) =
           (Inr \<lparr>generatedMessages = generatedMessages sc @
                   [finalMessage p (foldl reduceChunk reducer_init (chunks stream))],
                 currentHistory = currentHistory sc @
                   [finalMessage p (foldl reduceChunk reducer_init (chunks stream))]\<rparr>, s')"
proof -
  let ?i = "n + length (generatedMessages sc)"
  let ?tmp = "\<lparr>persona = Persona p, msg_text = ''...'', isStreaming = Some True, sources = None\<rparr>"
  let ?s2 = "log_action (CallTurnStream p stage) (s\<lparr>messages := messages s @ [?tmp]\<rparr>)"
  obtain r s3 where cs: "consumeStream ?i (chunks stream) (reducer_init, ?s2) = (r, s3)"
    and r: "r = foldl reduceChunk reducer_init (chunks stream)"
    by (rule consumeStream_cases [of ?i "chunks stream" reducer_init ?s2])
  show ?thesis
    using assms cs r by (simp add: generateTurn_def Let_def)
qed

lemma generateTurns_ok:
  assumes "\<And>h p side stage. \<exists>stream.
             generateDebateTurnStream e h p side stage q = Inr stream \<and> failure stream = None"
  shows "\<exists>sc' s'. generateTurns e n stance q ts (sc, s) = (Inr sc', s')"
proof (induction ts arbitrary: sc s)
  case Nil
  show ?case by simp
next
  case (Cons turn ts)
  obtain p stage where turn: "turn = (p, stage)" by (cases turn)
  from assms [of "currentHistory sc" p "stance p" stage] obtain stream where
    "generateDebateTurnStream e (currentHistory sc) p (stance p) stage q = Inr stream"
    "failure stream = None"
    by blast
  from generateTurn_ok [where stance = stance and n = n and s = s, OF this] obtain sc1 s1 where
    "generateTurn e n stance q (p, stage) (sc, s) = (Inr sc1, s1)"
    by blast
  with Cons.IH [of sc1 s1] turn show ?case by simp
qed

lemma generateTurns_Inr:
  "generateTurns e n stance q ts (sc, s) = (Inr sc', s') \<Longrightarrow>
   \<exists>ms. generatedMessages sc' = generatedMessages sc @ ms \<and>
        currentHistory sc' = currentHistory sc @ ms \<and>
        map persona ms = map (Persona \<circ> fst) ts \<and>
        requested (trace s') = requested (trace s) @ ts \<and>
        (length (messages s) = n + length (generatedMessages sc) \<longrightarrow>
           messages s' = messages s @ ms)"
proof (induction ts arbitrary: sc s)
  case Nil
  then show ?case by simp
next
  case (Cons turn ts)
  obtain p stage where turn: "turn = (p, stage)" by (cases turn)
  obtain res s1 where step: "generateTurn e n stance q (p, stage) (sc, s) = (res, s1)"
    by (cases "generateTurn e n stance q (p, stage) (sc, s)")
  with Cons.prems turn obtain sc1 where res: "res = Inr sc1"
    and rest: "generateTurns e n stance q ts (sc1, s1) = (Inr sc', s')"
    by (cases res) simp_all
  from generateTurn_Inr_msg [OF step [unfolded res]] obtain fm where
    fm: "persona fm = Persona p"
      "generatedMessages sc1 = generatedMessages sc @ [fm]"
      "currentHistory sc1 = currentHistory sc @ [fm]"
      "requested (trace s1) = requested (trace s) @ [(p, stage)]"
      "length (messages s) = n + length (generatedMessages sc) \<longrightarrow> messages s1 = messages s @ [fm]"
    by blast
  from Cons.IH [OF rest] obtain ms where
    ms: "generatedMessages sc' = generatedMessages sc1 @ ms"
      "currentHistory sc' = currentHistory sc1 @ ms"
      "map persona ms = map (Persona \<circ> fst) ts"
      "requested (trace s') = requested (trace s1) @ ts"
      "length (messages s1) = n + length (generatedMessages sc1) \<longrightarrow> messages s' = messages s1 @ ms"
    by blast
  show ?case
    using fm ms turn by (intro exI [of _ "fm # ms"]) auto
qed

lemma generateTurns_Inl:
  "generateTurns e n stance q ts (sc, s) = (Inl err, s') \<Longrightarrow>
   \<exists>k < length ts.
      requested (trace s') = requested (trace s) @ take (Suc k) ts \<and>
      (length (messages s) = n + length (generatedMessages sc) \<longrightarrow>
         (\<exists>ms. map persona ms = map (Persona \<circ> fst) (take (Suc k) ts) \<and>
               messages s' = messages s @ ms))"
proof (induction ts arbitrary: sc s)
  case Nil
  then show ?case by simp
next
  case (Cons turn ts)
  obtain p stage where turn: "turn = (p, stage)" by (cases turn)
  obtain res s1 where step: "generateTurn e n stance q (p, stage) (sc, s) = (res, s1)"
    by (cases "generateTurn e n stance q (p, stage) (sc, s)")
  show ?case
  proof (cases res)
    case (Inl err')
    with Cons.prems turn step have s': "s' = s1" by simp
    from generateTurn_Inl [OF step [unfolded Inl]] s' turn show ?thesis
      by (intro exI [of _ 0]) auto
  next
    case (Inr sc1)
    with Cons.prems turn step
    have rest: "generateTurns e n stance q ts (sc1, s1) = (Inl err, s')" by simp
    from generateTurn_Inr_msg [OF step [unfolded Inr]] obtain fm where
      fm: "persona fm = Persona p"
        "generatedMessages sc1 = generatedMessages sc @ [fm]"
        "requested (trace s1) = requested (trace s) @ [(p, stage)]"
        "length (messages s) = n + length (generatedMessages sc) \<longrightarrow> messages s1 = messages s @ [fm]"
      by blast
    from Cons.IH [OF rest] obtain k where k: "k < length ts"
      "requested (trace s') = requested (trace s1) @ take (Suc k) ts"
      "length (messages s1) = n + length (generatedMessages sc1) \<longrightarrow>
         (\<exists>ms. map persona ms = map (Persona \<circ> fst) (take (Suc k) ts) \<and>
               messages s' = messages s1 @ ms)"
      by blast
    have msgs: "\<exists>ms. map persona ms = map (Persona \<circ> fst) (take (Suc (Suc k)) (turn # ts)) \<and>
               messages s' = messages s @ ms"
      if len: "length (messages s) = n + length (generatedMessages sc)"
    proof -
      from len fm have "messages s1 = messages s @ [fm]" by simp
      moreover from this len fm k obtain ms where
        "map persona ms = map (Persona \<circ> fst) (take (Suc k) ts)" "messages s' = messages s1 @ ms"
        by auto
      ultimately show ?thesis using fm turn
        by (intro exI [of _ "fm # ms"]) simp
    qed
    have req: "requested (trace s') = requested (trace s) @ take (Suc (Suc k)) (turn # ts)"
      using k fm turn by simp
    have "Suc k < length (turn # ts)" using k by simp
    with req msgs show ?thesis by blast
  qed
qed

subsection \<open>A concrete run: the question "Should AI have rights?"\<close>

text \<open>
  The capabilities of the scenario: every turn streams the same three chunks, the summary
  request succeeds and the comparison request fails.
\<close>

definition demo_chunks :: "StreamChunk list" where
  "demo_chunks =
     [\<lparr>chunk_text = Some ''Rights  '', groundingChunks = None\<rparr>,
      \<lparr>chunk_text = Some '' follow duties.'',
       groundingChunks = Some [Some \<lparr>web_uri = Some ''https://a.example'', web_title = Some ''First''\<rparr>]\<rparr>,
      \<lparr>chunk_text = Some [],
       groundingChunks = Some [Some \<lparr>web_uri = Some ''https://a.example'', web_title = Some ''Second''\<rparr>]\<rparr>]"

text \<open>The judge gives both sides 5 on each of the eight criteria, in the order of the rubric.\<close>

definition demo_scores :: "Score list" where
  "demo_scores =
     map (\<lambda>k. \<lparr>criteria = k, score = Finite 5, score_notes = ''Well argued.''\<rparr>)
       [''Positioning'', ''Argument'', ''Evidence'', ''Refutation'', ''Coverage'', ''Ethics'',
        ''Clarity'', ''Tone'']"

definition demo_env :: env where
  "demo_env =
     \<lparr>getDebateSides = (\<lambda>q. Inr (''AI should have rights'', ''AI should not have rights'')),
      generateDebateTurnStream = (\<lambda>h p side stage q. Inr \<lparr>chunks = demo_chunks, failure = None\<rparr>),
      generateDebateSummary = (\<lambda>h. Inr \<lparr>logosSummary = [''l1'', ''l2'', ''l3''],
                                          pathosSummary = [''p1'', ''p2'', ''p3'']\<rparr>),
      generateArgumentComparison =
        (\<lambda>h. Inl (Error ''Could not generate the argument comparison table.'')),
      generateDebateScore = (\<lambda>h q. Inr (demo_scores, demo_scores)),
      newAudioContext = None,
      decode = (\<lambda>d. None)\<rparr>"

definition demo_sides :: "AIPersona \<Rightarrow> string" where
  "demo_sides p = (case p of Logos \<Rightarrow> ''AI should have rights'' | Pathos \<Rightarrow> ''AI should not have rights'')"

subsection \<open>The text of a turn\<close>

text \<open>
  When the stream of a turn ends normally, the turn yields one final message, no longer
  streaming, whose text is the concatenation, in the order of arrival, of what each chunk
  appends: its text, or the word "undefined" when it has none.
\<close>

lemma fullText_concatenation:
  assumes "generateDebateTurnStream e (currentHistory sc) p (stance p) stage q = Inr stream"
    and "failure stream = None"
  shows "\<exists>sc' s' fm.
           generateTurn e n stance q (p, stage) (sc, s) = (Inr sc', s') \<and>
           generatedMessages sc' = generatedMessages sc @ [fm] \<and>
           isStreaming fm = Some False \<and>
           msg_text fm = concat (map (\<lambda>c. string_of_text (chunk_text c)) (chunks stream))"
proof -
  let ?fm = "finalMessage p (foldl reduceChunk reducer_init (chunks stream))"
  from generateTurn_ok [where stance = stance and n = n and s = s, OF assms] obtain s' where
    run: "generateTurn e n stance q (p, stage) (sc, s) =
            (Inr \<lparr>generatedMessages = generatedMessages sc @ [?fm],
                  currentHistory = currentHistory sc @ [?fm]\<rparr>, s')"
    by blast
  have "msg_text ?fm = concat (map (\<lambda>c. string_of_text (chunk_text c)) (chunks stream))"
    by (simp add: finalMessage_def fullText_foldl_reduceChunk reducer_init_def)
  moreover have "isStreaming ?fm = Some False" by (simp add: finalMessage_def)
  ultimately show ?thesis using run by auto
qed

text \<open>
  A stream of two chunks: the first carries the text of the turn, the second carries a
  citation and no text.
\<close>

definition textless_chunks :: "StreamChunk list" where
  "textless_chunks =
     [\<lparr>chunk_text = Some ''Rights follow duties.'', groundingChunks = None\<rparr>,
      \<lparr>chunk_text = None,
       groundingChunks = Some [Some \<lparr>web_uri = Some ''https://a.example'', web_title = Some ''First''\<rparr>]\<rparr>]"

definition textless_env :: env where
  "textless_env =
     demo_env\<lparr>generateDebateTurnStream :=
       (\<lambda>h p side stage q. Inr \<lparr>chunks = textless_chunks, failure = None\<rparr>)\<rparr>"

text \<open>
  C5 does not hold of the code. The text fragments of the stream are the single fragment
  "Rights follow duties."; the chunk without text makes the loop append the word
  "undefined", so the text of the final message is not the concatenation of the
  fragments.
\<close>

theorem fullText_chunk_without_text:
  "map chunk_text textless_chunks = [Some ''Rights follow duties.'', None] \<and>
   (case generateTurn textless_env 3 demo_sides ''Should AI have rights?'' (Logos, ''OPENING'')
           (\<lparr>generatedMessages = [], currentHistory = []\<rparr>, initial_state) of
      (Inl err, s') \<Rightarrow> False
    | (Inr sc', s') \<Rightarrow>
        map msg_text (generatedMessages sc') = [''Rights follow duties.undefined''])"
proof -
  have h1: "generateDebateTurnStream textless_env
      (currentHistory \<lparr>generatedMessages = [], currentHistory = []\<rparr>) Logos (demo_sides Logos)
      ''OPENING'' ''Should AI have rights?'' = Inr \<lparr>chunks = textless_chunks, failure = None\<rparr>"
    by (simp add: textless_env_def)
  have h2: "failure \<lparr>chunks = textless_chunks, failure = None\<rparr> = None" by simp
  from fullText_concatenation [where e = textless_env and p = Logos and stance = demo_sides
      and sc = "\<lparr>generatedMessages = [], currentHistory = []\<rparr>"
      and stream = "\<lparr>chunks = textless_chunks, failure = None\<rparr>"
      and n = 3 and s = initial_state, OF h1 h2]
  obtain sc' s' fm where
    run: "generateTurn textless_env 3 demo_sides ''Should AI have rights?'' (Logos, ''OPENING'')
           (\<lparr>generatedMessages = [], currentHistory = []\<rparr>, initial_state) = (Inr sc', s')"
    and g: "generatedMessages sc' = [fm]"
    and ft: "msg_text fm = concat (map (\<lambda>c. string_of_text (chunk_text c)) textless_chunks)"
    by auto
  have "msg_text fm = ''Rights follow duties.undefined''"
    unfolding ft by (simp add: textless_chunks_def string_of_text_def)
  with run g show ?thesis by (simp add: textless_chunks_def)
qed


text \<open>The system messages that \<open>handleStartDebate\<close> builds in the scenario.\<close>

definition demo_system :: "DebateMessage list" where
  "demo_system =
     [\<lparr>persona = SYSTEM, msg_text = ''Topic: \"Should AI have rights?\"'', isStreaming = None, sources = None\<rparr>,
      \<lparr>persona = SYSTEM, msg_text = ''Logos will argue: \"AI should have rights\"'', isStreaming = None, sources = None\<rparr>,
      \<lparr>persona = SYSTEM, msg_text = ''Pathos will argue: \"AI should not have rights\"'', isStreaming = None, sources = None\<rparr>]"

subsection \<open>The order of the turns\<close>

text \<open>The messages of the debaters: those whose persona is not \<open>SYSTEM\<close>.\<close>

definition spoken :: "DebateMessage list \<Rightarrow> DebateMessage list" where
  "spoken ms = filter (\<lambda>m. persona m \<noteq> SYSTEM) ms"

lemma spoken_system: "\<forall>m \<in> set xs. persona m = SYSTEM \<Longrightarrow> spoken (xs @ ys) = spoken ys"
  by (induction xs) (simp_all add: spoken_def)

lemma spoken_personas:
  "map persona ms = map (Persona \<circ> fst) ts \<Longrightarrow> spoken ms = ms"
proof (induction ms arbitrary: ts)
  case Nil
  show ?case by (simp add: spoken_def)
next
  case (Cons m ms)
  then obtain t ts' where ts: "ts = t # ts'" by (cases ts) auto
  with Cons.prems have "persona m = Persona (fst t)" "map persona ms = map (Persona \<circ> fst) ts'"
    by simp_all
  with Cons.IH [of ts'] show ?case by (simp add: spoken_def)
qed

text \<open>
  C7. Whatever the capabilities return, the requests for the turns' texts are issued in
  the order of \<open>debateTurns\<close> and the debaters' messages appear in that order: of a run
  that a failure cuts short they form a prefix of the fixed sequence, and of a run that
  generates the whole script they are exactly Logos/OPENING, Pathos/OPENING,
  Logos/REBUTTAL, Pathos/REBUTTAL, Logos/CLOSING, Pathos/CLOSING.
\<close>

theorem turn_order_fixed:
  assumes run: "generateScript e systemMessages stance q s = (res, s')"
    and msgs: "messages s = systemMessages"
    and sys: "\<forall>m \<in> set systemMessages. persona m = SYSTEM"
    and fresh: "requested (trace s) = []"
  shows "prefix (requested (trace s')) debateTurns \<and>
         prefix (map persona (spoken (messages s'))) (map (Persona \<circ> fst) debateTurns) \<and>
         (\<forall>sc. res = Inr sc \<longrightarrow>
            requested (trace s') = debateTurns \<and>
            spoken (messages s') = generatedMessages sc \<and>
            map persona (generatedMessages sc) = map (Persona \<circ> fst) debateTurns \<and>
            zip (map persona (generatedMessages sc)) (map snd (requested (trace s'))) =
              [(Persona Logos, ''OPENING''), (Persona Pathos, ''OPENING''),
               (Persona Logos, ''REBUTTAL''), (Persona Pathos, ''REBUTTAL''),
               (Persona Logos, ''CLOSING''), (Persona Pathos, ''CLOSING'')])"
proof (cases res)
  case (Inl err)
  let ?s0 = "s\<lparr>statusText := ''Generating debate script...''\<rparr>"
  let ?sc0 = "\<lparr>generatedMessages = [], currentHistory = systemMessages\<rparr>"
  from run Inl have "generateTurns e (length systemMessages) stance q debateTurns (?sc0, ?s0) = (Inl err, s')"
    by (simp add: generateScript_def)
  from generateTurns_Inl [OF this] msgs fresh obtain k ms where
    k: "requested (trace s') = take (Suc k) debateTurns"
      "map persona ms = map (Persona \<circ> fst) (take (Suc k) debateTurns)"
      "messages s' = systemMessages @ ms"
    by auto
  have "spoken (messages s') = ms"
    using k sys spoken_system [of systemMessages ms] spoken_personas [OF k(2)] by simp
  then have "map persona (spoken (messages s')) = take (Suc k) (map (Persona \<circ> fst) debateTurns)"
    using k by (simp add: take_map)
  with k Inl show ?thesis by (simp add: take_is_prefix)
next
  case (Inr sc)
  let ?s0 = "s\<lparr>statusText := ''Generating debate script...''\<rparr>"
  let ?sc0 = "\<lparr>generatedMessages = [], currentHistory = systemMessages\<rparr>"
  from run Inr have "generateTurns e (length systemMessages) stance q debateTurns (?sc0, ?s0) = (Inr sc, s')"
    by (simp add: generateScript_def)
  from generateTurns_Inr [OF this] msgs fresh obtain ms where
    ms: "generatedMessages sc = ms"
      "map persona ms = map (Persona \<circ> fst) debateTurns"
      "requested (trace s') = debateTurns"
      "messages s' = systemMessages @ ms"
    by auto
  have sp: "spoken (messages s') = ms"
    using ms sys spoken_system [of systemMessages ms] spoken_personas [OF ms(2)] by simp
  have "zip (map persona ms) (map snd debateTurns) =
          [(Persona Logos, ''OPENING''), (Persona Pathos, ''OPENING''),
           (Persona Logos, ''REBUTTAL''), (Persona Pathos, ''REBUTTAL''),
           (Persona Logos, ''CLOSING''), (Persona Pathos, ''CLOSING'')]"
    unfolding ms(2) by (simp add: debateTurns_def)
  with ms sp Inr show ?thesis by simp
qed

theorem turn_order_fixed_witness:
  "requested (trace (snd (generateScript demo_env demo_system demo_sides ''Should AI have rights?''
      (initial_state\<lparr>messages := demo_system\<rparr>)))) = debateTurns \<and>
   map persona (spoken (messages (snd (generateScript demo_env demo_system demo_sides
      ''Should AI have rights?'' (initial_state\<lparr>messages := demo_system\<rparr>))))) =
     [Persona Logos, Persona Pathos, Persona Logos, Persona Pathos, Persona Logos, Persona Pathos]"
proof -
  let ?run = "generateScript demo_env demo_system demo_sides ''Should AI have rights?''
      (initial_state\<lparr>messages := demo_system\<rparr>)"
  have "\<exists>stream. generateDebateTurnStream demo_env h p side stage ''Should AI have rights?'' =
          Inr stream \<and> failure stream = None" for h p side stage
    by (simp add: demo_env_def)
  from generateTurns_ok [OF this] have ok: "\<exists>sc. fst ?run = Inr sc"
    unfolding generateScript_def by (metis fst_conv)
  then obtain sc where sc: "fst ?run = Inr sc" ..
  have run: "?run = (Inr sc, snd ?run)" using sc by (simp add: prod_eq_iff)
  have h2: "messages (initial_state\<lparr>messages := demo_system\<rparr>) = demo_system" by simp
  have h3: "\<forall>m \<in> set demo_system. persona m = SYSTEM" by (simp add: demo_system_def)
  have h4: "requested (trace (initial_state\<lparr>messages := demo_system\<rparr>)) = []"
    by (simp add: initial_state_def requested_def)
  from turn_order_fixed [OF run h2 h3 h4] show ?thesis
    by (simp add: debateTurns_def)
qed

subsection \<open>The citations of a turn\<close>

text \<open>
  What a grounding chunk offers as a citation: its web source, when it has one with a
  non-empty uri, as the \<open>Source\<close> the loop would store for it.
\<close>

definition candidate :: "WebSource option \<Rightarrow> Source list" where
  "candidate g =
     (case g of
        None \<Rightarrow> []
      | Some w \<Rightarrow>
          (case web_uri w of
             None \<Rightarrow> []
           | Some u \<Rightarrow> if u \<noteq> [] then [\<lparr>uri = u, title = title_or_uri (web_title w) u\<rparr>] else []))"

text \<open>The candidates of a chunk and of a chunk sequence, in their order of arrival.\<close>

definition chunk_candidates :: "StreamChunk \<Rightarrow> Source list" where
  "chunk_candidates c =
     (case groundingChunks c of None \<Rightarrow> [] | Some gs \<Rightarrow> concat (map candidate gs))"

definition candidates :: "StreamChunk list \<Rightarrow> Source list" where
  "candidates cs = concat (map chunk_candidates cs)"

text \<open>
  The rule of the specification, written from its words: the candidate at position \<open>k\<close>
  is kept iff its uri occurs at no earlier position.
\<close>

definition first_seen :: "Source list \<Rightarrow> Source list" where
  "first_seen xs =
     map (\<lambda>k. xs ! k) (filter (\<lambda>k. uri (xs ! k) \<notin> uri ` set (take k xs)) [0..<length xs])"

text \<open>One step of the loop on the list alone, and the invariant tying the set to the list.\<close>

definition keep_new :: "Source list \<Rightarrow> Source \<Rightarrow> Source list" where
  "keep_new acc c = (if uri c \<in> uri ` set acc then acc else acc @ [c])"

definition uris_agree :: "reducer \<Rightarrow> bool" where
  "uris_agree r = (sourceUris r = uri ` set (turn_sources r))"

lemma pushSource_keep_new:
  "uris_agree r \<Longrightarrow>
   uris_agree (pushSource r g) \<and>
   turn_sources (pushSource r g) = foldl keep_new (turn_sources r) (candidate g)"
  by (auto simp: uris_agree_def pushSource_def candidate_def keep_new_def split: option.splits)

lemma foldl_pushSource_keep_new:
  "uris_agree r \<Longrightarrow>
   uris_agree (foldl pushSource r gs) \<and>
   turn_sources (foldl pushSource r gs) = foldl keep_new (turn_sources r) (concat (map candidate gs))"
proof (induction gs arbitrary: r)
  case Nil
  then show ?case by simp
next
  case (Cons g gs)
  from pushSource_keep_new [OF Cons.prems, of g] Cons.IH [of "pushSource r g"]
  show ?case by simp
qed

lemma reduceChunk_keep_new:
  assumes "uris_agree r"
  shows "uris_agree (reduceChunk r c) \<and>
         turn_sources (reduceChunk r c) = foldl keep_new (turn_sources r) (chunk_candidates c)"
proof (cases "groundingChunks c")
  case None
  with assms show ?thesis
    by (simp add: reduceChunk_def chunk_candidates_def uris_agree_def)
next
  case (Some gs)
  let ?r1 = "r\<lparr>fullText := fullText r @ string_of_text (chunk_text c)\<rparr>"
  from assms have "uris_agree ?r1" by (simp add: uris_agree_def)
  from foldl_pushSource_keep_new [OF this, of gs] Some show ?thesis
    by (simp add: reduceChunk_def chunk_candidates_def)
qed

lemma foldl_reduceChunk_keep_new:
  "uris_agree r \<Longrightarrow>
   uris_agree (foldl reduceChunk r cs) \<and>
   turn_sources (foldl reduceChunk r cs) = foldl keep_new (turn_sources r) (candidates cs)"
proof (induction cs arbitrary: r)
  case Nil
  then show ?case by (simp add: candidates_def)
next
  case (Cons c cs)
  from reduceChunk_keep_new [OF Cons.prems, of c] Cons.IH [of "reduceChunk r c"]
  show ?case by (simp add: candidates_def)
qed

lemma uris_foldl_keep_new:
  "uri ` set (foldl keep_new acc xs) = uri ` set acc \<union> uri ` set xs"
  by (induction xs arbitrary: acc) (auto simp: keep_new_def)

lemma distinct_foldl_keep_new:
  "distinct (map uri acc) \<Longrightarrow> distinct (map uri (foldl keep_new acc xs))"
  by (induction xs arbitrary: acc) (auto simp: keep_new_def)

lemma first_seen_snoc:
  "first_seen (xs @ [x]) = first_seen xs @ (if uri x \<in> uri ` set xs then [] else [x])"
proof -
  have "filter (\<lambda>k. uri ((xs @ [x]) ! k) \<notin> uri ` set (take k (xs @ [x]))) [0..<length xs] =
        filter (\<lambda>k. uri (xs ! k) \<notin> uri ` set (take k xs)) [0..<length xs]"
    by (rule filter_cong) (simp_all add: nth_append)
  moreover have "map (\<lambda>k. (xs @ [x]) ! k) (filter (\<lambda>k. uri (xs ! k) \<notin> uri ` set (take k xs)) [0..<length xs]) =
        map (\<lambda>k. xs ! k) (filter (\<lambda>k. uri (xs ! k) \<notin> uri ` set (take k xs)) [0..<length xs])"
    by (rule map_cong) (simp_all add: nth_append)
  ultimately show ?thesis
    by (simp add: first_seen_def)
qed

lemma foldl_keep_new_first_seen: "foldl keep_new [] xs = first_seen xs"
proof (induction xs rule: rev_induct)
  case Nil
  show ?case by (simp add: first_seen_def)
next
  case (snoc x xs)
  have seen: "uri ` set (foldl keep_new [] xs) = uri ` set xs"
    using uris_foldl_keep_new [of "[]" xs] by simp
  have "foldl keep_new [] (xs @ [x]) = keep_new (foldl keep_new [] xs) x"
    by simp
  also have "\<dots> = foldl keep_new [] xs @ (if uri x \<in> uri ` set xs then [] else [x])"
    unfolding keep_new_def seen by simp
  also have "\<dots> = first_seen (xs @ [x])"
    unfolding snoc first_seen_snoc by simp
  finally show ?case .
qed

lemma turn_sources_first_seen:
  "turn_sources (foldl reduceChunk reducer_init cs) = first_seen (candidates cs)"
proof -
  have "uris_agree reducer_init" by (simp add: uris_agree_def reducer_init_def)
  from foldl_reduceChunk_keep_new [OF this, of cs] show ?thesis
    by (simp add: reducer_init_def foldl_keep_new_first_seen)
qed


lemma first_seen_subseq: "subseq (first_seen xs) xs"
proof (induction xs rule: rev_induct)
  case Nil
  show ?case by (simp add: first_seen_def)
next
  case (snoc x xs)
  have "subseq (if uri x \<in> uri ` set xs then [] else [x]) [x]" by simp
  with snoc show ?case
    unfolding first_seen_snoc by (rule list_emb_append_mono)
qed

lemma first_seen_distinct: "distinct (map uri (first_seen xs))"
  using distinct_foldl_keep_new [of "[]" xs] by (simp add: foldl_keep_new_first_seen)

text \<open>
  C6, as stated, fails: a candidate whose uri is the empty string has a uri that was not
  seen before, yet the guard \<open>source.uri &&\<close> drops it.
\<close>

theorem citation_empty_uri_dropped:
  "[] \<notin> sourceUris reducer_init \<and>
   turn_sources (foldl reduceChunk reducer_init
     [\<lparr>chunk_text = Some ''As shown, '',
       groundingChunks = Some [Some \<lparr>web_uri = Some [], web_title = Some ''Survey''\<rparr>]\<rparr>]) = []"
  by (simp add: reducer_init_def reduceChunk_def pushSource_def)

text \<open>
  C6, amended. Among the grounding chunks that carry a web source with a non-empty uri,
  one is appended to the citations of the turn's message iff its uri has not occurred
  before in this turn; the others are never appended. The stored label is the title,
  or the uri when the title is missing or empty. The citations keep the order of
  arrival, their uris are pairwise distinct, and two chunks with the same non-empty uri
  and different titles give exactly one citation, with the label of the first.
\<close>

theorem citations_first_seen:
  assumes "generateDebateTurnStream e (currentHistory sc) p (stance p) stage q = Inr stream"
    and "failure stream = None"
  shows "\<exists>sc' s' fm.
           generateTurn e n stance q (p, stage) (sc, s) = (Inr sc', s') \<and>
           generatedMessages sc' = generatedMessages sc @ [fm] \<and>
           sources fm = sources_field (first_seen (candidates (chunks stream))) \<and>
           distinct (map uri (first_seen (candidates (chunks stream)))) \<and>
           subseq (first_seen (candidates (chunks stream))) (candidates (chunks stream)) \<and>
           (if u \<noteq> [] \<and> chunks stream =
                 [\<lparr>chunk_text = t1,
                   groundingChunks = Some [Some \<lparr>web_uri = Some u, web_title = Some l1\<rparr>]\<rparr>,
                  \<lparr>chunk_text = t2,
                   groundingChunks = Some [Some \<lparr>web_uri = Some u, web_title = Some l2\<rparr>]\<rparr>]
            then sources fm = Some [\<lparr>uri = u, title = title_or_uri (Some l1) u\<rparr>]
            else True)"
proof -
  let ?fm = "finalMessage p (foldl reduceChunk reducer_init (chunks stream))"
  from generateTurn_ok [where stance = stance and n = n and s = s, OF assms] obtain s' where
    run: "generateTurn e n stance q (p, stage) (sc, s) =
            (Inr \<lparr>generatedMessages = generatedMessages sc @ [?fm],
                  currentHistory = currentHistory sc @ [?fm]\<rparr>, s')"
    by blast
  have src: "sources ?fm = sources_field (first_seen (candidates (chunks stream)))"
    by (simp add: finalMessage_def turn_sources_first_seen)
  have two: "sources ?fm = Some [\<lparr>uri = u, title = title_or_uri (Some l1) u\<rparr>]"
    if "u \<noteq> []" and "chunks stream =
                 [\<lparr>chunk_text = t1,
                   groundingChunks = Some [Some \<lparr>web_uri = Some u, web_title = Some l1\<rparr>]\<rparr>,
                  \<lparr>chunk_text = t2,
                   groundingChunks = Some [Some \<lparr>web_uri = Some u, web_title = Some l2\<rparr>]\<rparr>]"
    using that
    by (simp add: finalMessage_def reducer_init_def reduceChunk_def pushSource_def sources_field_def)
  from run src two first_seen_distinct first_seen_subseq show ?thesis
    by (intro exI [of _ "\<lparr>generatedMessages = generatedMessages sc @ [?fm],
                currentHistory = currentHistory sc @ [?fm]\<rparr>"]
          exI [of _ s'] exI [of _ ?fm]) simp
qed

theorem citations_first_seen_witness:
  "\<exists>sc' s' fm.
     generateTurn demo_env 3 demo_sides ''Should AI have rights?'' (Logos, ''OPENING'')
       (\<lparr>generatedMessages = [], currentHistory = []\<rparr>, initial_state) = (Inr sc', s') \<and>
     generatedMessages sc' = [fm] \<and>
     sources fm = Some [\<lparr>uri = ''https://a.example'', title = ''First''\<rparr>]"
proof -
  have h1: "generateDebateTurnStream demo_env
      (currentHistory \<lparr>generatedMessages = [], currentHistory = []\<rparr>) Logos (demo_sides Logos)
      ''OPENING'' ''Should AI have rights?'' = Inr \<lparr>chunks = demo_chunks, failure = None\<rparr>"
    by (simp add: demo_env_def)
  have h2: "failure \<lparr>chunks = demo_chunks, failure = None\<rparr> = None" by simp
  have fs: "first_seen (candidates demo_chunks) = [\<lparr>uri = ''https://a.example'', title = ''First''\<rparr>]"
    by (simp add: first_seen_def candidates_def chunk_candidates_def candidate_def demo_chunks_def
        title_or_uri_def upt_rec)
  from citations_first_seen [where e = demo_env and p = Logos and stance = demo_sides
      and sc = "\<lparr>generatedMessages = [], currentHistory = []\<rparr>"
      and stream = "\<lparr>chunks = demo_chunks, failure = None\<rparr>"
      and n = 3 and s = initial_state and u = "[]", OF h1 h2]
  show ?thesis
    by (auto simp: fs sources_field_def)
qed

section \<open>Part 2 of \<open>runDebate\<close>: summary and comparison\<close>

text \<open>
  \<open>await Promise.all([generateDebateSummary(..), generateArgumentComparison(..)])\<close> inside
  one \<open>try\<close>: both requests are issued; when both fulfil, both results are stored; when
  either rejects, the \<open>catch\<close> logs to the console and nothing is stored. The logged
  text is recorded without the message of the error.
\<close>

definition generateAnalysis :: "env \<Rightarrow> DebateMessage list \<Rightarrow> app_state \<Rightarrow> app_state" where
  "generateAnalysis e history s =
     (let s1 = s\<lparr>statusText := ''Generating debate summary and analysis...''\<rparr>;
          s2 = log_action CallComparison (log_action CallSummary s1)
      in case generateDebateSummary e history of
           Inl err \<Rightarrow> log_action (ConsoleError ''Failed to generate post-debate analysis:'') s2
         | Inr debateSummary \<Rightarrow>
             (case generateArgumentComparison e history of
                Inl err \<Rightarrow>
                  log_action (ConsoleError ''Failed to generate post-debate analysis:'') s2
              | Inr argumentComparison \<Rightarrow>
                  s2\<lparr>summary := Some debateSummary, comparison := Some argumentComparison\<rparr>))"

section \<open>The interrupt handlers\<close>

text \<open>
  \<open>skipTrigger.current?.(v)\<close>: the resolver, when there is one, resolves the interrupt
  promise; resolving a promise that is already resolved changes nothing.
\<close>

definition resolveInterrupt :: "string \<Rightarrow> app_state \<Rightarrow> app_state" where
  "resolveInterrupt v s =
     (if skipTrigger s \<and> interruptPromise s = None then s\<lparr>interruptPromise := Some v\<rparr> else s)"

text \<open>\<open>if (currentAudioSourceRef.current) currentAudioSourceRef.current.stop()\<close>\<close>

definition stopCurrentSource :: "app_state \<Rightarrow> app_state" where
  "stopCurrentSource s = (if currentAudioSourceRef s then log_action SourceStop s else s)"

definition handleSkip :: "app_state \<Rightarrow> app_state" where
  "handleSkip s = resolveInterrupt ''turn'' (stopCurrentSource s)"

definition handleSkipToVoting :: "app_state \<Rightarrow> app_state" where
  "handleSkipToVoting s =
     (if isSkippedRef s then s
      else
        let s1 = s\<lparr>isSkippedRef := True\<rparr>;
            s2 = stopCurrentSource s1;
            s3 = resolveInterrupt ''voting'' s2
        in s3\<lparr>speakingMessageIndex := None, statusText := [], phase := VOTING\<rparr>)"

section \<open>Part 3 of \<open>runDebate\<close>: the playback loop\<close>

text \<open>
  The loop runs on the event loop of the browser: between two \<open>await\<close>s its code runs
  without interruption, and while it is suspended at an \<open>await\<close> one event at a time is
  delivered. The model is a transition system: a control point says at which \<open>await\<close>
  of which iteration the loop is suspended, and \<open>step\<close> delivers one event.

  A value a race can resolve with: the audio payload or an interrupt tag (both strings),
  or \<open>undefined\<close> (the playback promise).
\<close>

datatype js_value = Undefined | Str string

fun truthy :: "js_value \<Rightarrow> bool" where
  "truthy Undefined = False"
| "truthy (Str v) = (v \<noteq> [])"

text \<open>
  The events: the capability promise the loop is waiting for settles (\<open>generateSpeech\<close>
  at \<open>AwaitSpeech\<close>, \<open>decodeAudioData\<close> at \<open>AwaitDecode\<close>); the buffer source that
  \<open>currentAudioSourceRef\<close> holds fires \<open>onended\<close>; a \<open>decodeAudioData\<close> that the loop no
  longer waits for completes; the user clicks one of the two buttons.
\<close>

datatype event =
    Settle "js_error + js_value"
  | Ended
  | BackgroundDecoded
  | ClickSkip
  | ClickSkipToVoting

datatype pc = AwaitSpeech nat | AwaitDecode nat | AwaitSound nat | Returned

text \<open>
  The \<open>catch\<close> of \<open>handleStartDebate\<close>, which receives whatever \<open>runDebate\<close> throws:
  \<open>setError(err.message || "Failed to start debate."); setPhase(IDLE)\<close>.
\<close>

definition catchStart :: "js_error \<Rightarrow> app_state \<Rightarrow> app_state" where
  "catchStart err s =
     s\<lparr>error := Some (if message err \<noteq> [] then message err else ''Failed to start debate.''),
       phase := IDLE\<rparr>"

text \<open>The code after the loop.\<close>

definition loopExit :: "app_state \<Rightarrow> pc \<times> app_state" where
  "loopExit s =
     (let s1 = s\<lparr>skipTrigger := False\<rparr>
      in (Returned,
          if \<not> isSkippedRef s1
          then s1\<lparr>speakingMessageIndex := None, statusText := [], phase := VOTING\<rparr>
          else s1))"

text \<open>
  The loop test and the body of iteration \<open>i\<close> up to its first \<open>await\<close>: a fresh interrupt
  promise is armed and \<open>generateSpeech\<close> is called.
\<close>

definition loopHead :: "DebateMessage list \<Rightarrow> nat \<Rightarrow> nat \<Rightarrow> app_state \<Rightarrow> pc \<times> app_state" where
  "loopHead generated firstMessageOffset i s =
     (if i < length generated then
        if isSkippedRef s then loopExit s
        else
          let s1 = s\<lparr>skipTrigger := True, interruptPromise := None\<rparr>;
              currentMessage = generated ! i;
              s2 = s1\<lparr>speakingMessageIndex := Some (firstMessageOffset + i)\<rparr>;
              s3 = s2\<lparr>statusText :=
                      ''Generating audio for '' @ speaker_name (persona currentMessage) @ ''...''\<rparr>
          in (AwaitSpeech i, log_action (CallGenerateSpeech i) s3)
      else loopExit s)"

text \<open>
  After the race of the playback promise: the \<open>catch\<close> on a rejection; \<open>break\<close> on
  \<open>'voting'\<close>; otherwise the next iteration.
\<close>

definition afterPlayback ::
  "DebateMessage list \<Rightarrow> nat \<Rightarrow> nat \<Rightarrow> js_error + js_value \<Rightarrow> app_state \<Rightarrow> pc \<times> app_state" where
  "afterPlayback generated firstMessageOffset i result s =
     (case result of
        Inl err \<Rightarrow>
          loopExit
            (if \<not> isSkippedRef s
             then (log_action (ConsoleError ''Error during audio playback:'') s)
                    \<lparr>error := Some ''Failed to play audio for a turn.''\<rparr>
             else s)
      | Inr v \<Rightarrow>
          if v = Str ''voting'' then loopExit s
          else loopHead generated firstMessageOffset (i + 1) s)"

text \<open>
  The playback section up to its first \<open>await\<close>: the status line (reading
  \<open>debateTurns[i].stage\<close> throws a \<open>TypeError\<close> when \<open>i\<close> is out of range, which leaves
  \<open>runDebate\<close>; its message depends on the engine), then \<open>playAudio\<close>, which resolves at
  once without an audio context or after a skip to voting, rejects when \<open>decode\<close> throws,
  and otherwise waits for \<open>decodeAudioData\<close>.
\<close>

definition startPlayback ::
  "env \<Rightarrow> DebateMessage list \<Rightarrow> nat \<Rightarrow> nat \<Rightarrow> string \<Rightarrow> app_state \<Rightarrow> pc \<times> app_state" where
  "startPlayback e generated firstMessageOffset i audioData s =
     (if i < length debateTurns then
        let s1 = s\<lparr>statusText :=
                    ''Speaking: '' @ speaker_name (persona (generated ! i)) @ '' ('' @
                      snd (debateTurns ! i) @ '')''\<rparr>;
            s2 = log_action (CallPlayAudio i) s1
        in if \<not> audioContextRef s2 \<or> isSkippedRef s2
           then afterPlayback generated firstMessageOffset i (Inr Undefined) s2
           else
             (case decode e audioData of
                Some err \<Rightarrow> afterPlayback generated firstMessageOffset i (Inl err) s2
              | None \<Rightarrow> (AwaitDecode i, s2))
      else (Returned, catchStart (Error ''Cannot read properties of undefined'') s))"

text \<open>
  After the race of the speech promise: the \<open>catch\<close> on a rejection; \<open>break\<close> on
  \<open>'voting'\<close>; \<open>continue\<close> on \<open>'turn'\<close> and on an empty payload; otherwise playback.
\<close>

definition afterSpeech ::
  "env \<Rightarrow> DebateMessage list \<Rightarrow> nat \<Rightarrow> nat \<Rightarrow> js_error + js_value \<Rightarrow> app_state \<Rightarrow> pc \<times> app_state" where
  "afterSpeech e generated firstMessageOffset i result s =
     (case result of
        Inl err \<Rightarrow>
          loopExit
            (if \<not> isSkippedRef s
             then (log_action (ConsoleError ''Error during audio generation:'') s)
                    \<lparr>error := Some ''Failed to generate audio for a turn.''\<rparr>
             else s)
      | Inr v \<Rightarrow>
          if v = Str ''voting'' then loopExit s
          else if v = Str ''turn'' then loopHead generated firstMessageOffset (i + 1) s
          else
            (case v of
               Undefined \<Rightarrow> loopHead generated firstMessageOffset (i + 1) s
             | Str audioData \<Rightarrow>
                 if audioData = [] then loopHead generated firstMessageOffset (i + 1) s
                 else startPlayback e generated firstMessageOffset i audioData s))"

text \<open>
  The continuation of \<open>playAudio\<close> once \<open>decodeAudioData\<close> has resolved:
  \<open>if (isSkippedRef.current) return resolve()\<close>, else the source is created and started.
\<close>

definition startSource :: "app_state \<Rightarrow> app_state" where
  "startSource s = log_action SourceStart (s\<lparr>currentAudioSourceRef := True\<rparr>)"

text \<open>The same continuation for a call of \<open>playAudio\<close> the loop has stopped waiting for.\<close>

definition backgroundDecoded :: "app_state \<Rightarrow> app_state" where
  "backgroundDecoded s =
     (if inflightDecodes s = 0 then s
      else
        let s1 = s\<lparr>inflightDecodes := inflightDecodes s - 1\<rparr>
        in if isSkippedRef s1 then s1 else startSource s1)"

text \<open>\<open>onended\<close>: the reference to the source is cleared.\<close>

definition sourceEnded :: "app_state \<Rightarrow> app_state" where
  "sourceEnded s = s\<lparr>currentAudioSourceRef := False\<rparr>"

text \<open>
  A click while the loop is suspended in a race: the handler runs; if it has resolved
  the interrupt promise, the race resolves with its value, else the loop stays
  suspended.
\<close>

definition afterClick ::
  "(js_error + js_value \<Rightarrow> app_state \<Rightarrow> pc \<times> app_state) \<Rightarrow> pc \<Rightarrow> app_state \<Rightarrow> pc \<times> app_state" where
  "afterClick resume here s =
     (case interruptPromise s of
        Some v \<Rightarrow> resume (Inr (Str v)) s
      | None \<Rightarrow> (here, s))"

definition abandonDecode :: "app_state \<Rightarrow> app_state" where
  "abandonDecode s = s\<lparr>inflightDecodes := inflightDecodes s + 1\<rparr>"

fun step ::
  "env \<Rightarrow> DebateMessage list \<Rightarrow> nat \<Rightarrow> event \<Rightarrow> pc \<times> app_state \<Rightarrow> pc \<times> app_state" where
  "step e g off (Settle r) (AwaitSpeech i, s) = afterSpeech e g off i r s"
| "step e g off ClickSkip (AwaitSpeech i, s) =
     afterClick (afterSpeech e g off i) (AwaitSpeech i) (handleSkip s)"
| "step e g off ClickSkipToVoting (AwaitSpeech i, s) =
     afterClick (afterSpeech e g off i) (AwaitSpeech i) (handleSkipToVoting s)"
| "step e g off (Settle (Inr v)) (AwaitDecode i, s) =
     (if isSkippedRef s then afterPlayback g off i (Inr Undefined) s
      else (AwaitSound i, startSource s))"
| "step e g off (Settle (Inl err)) (AwaitDecode i, s) = afterPlayback g off i (Inl err) s"
| "step e g off ClickSkip (AwaitDecode i, s) =
     afterClick (\<lambda>r s'. afterPlayback g off i r (abandonDecode s')) (AwaitDecode i) (handleSkip s)"
| "step e g off ClickSkipToVoting (AwaitDecode i, s) =
     afterClick (\<lambda>r s'. afterPlayback g off i r (abandonDecode s')) (AwaitDecode i)
       (handleSkipToVoting s)"
| "step e g off Ended (AwaitSound i, s) = afterPlayback g off i (Inr Undefined) (sourceEnded s)"
| "step e g off ClickSkip (AwaitSound i, s) =
     afterClick (afterPlayback g off i) (AwaitSound i) (handleSkip s)"
| "step e g off ClickSkipToVoting (AwaitSound i, s) =
     afterClick (afterPlayback g off i) (AwaitSound i) (handleSkipToVoting s)"
| "step e g off ClickSkip (Returned, s) = (Returned, handleSkip s)"
| "step e g off ClickSkipToVoting (Returned, s) = (Returned, handleSkipToVoting s)"
| "step e g off Ended (c, s) = (c, sourceEnded s)"
| "step e g off BackgroundDecoded (c, s) = (c, backgroundDecoded s)"
| "step e g off (Settle r) (c, s) = (c, s)"

definition playback ::
  "env \<Rightarrow> DebateMessage list \<Rightarrow> nat \<Rightarrow> event list \<Rightarrow> pc \<times> app_state \<Rightarrow> pc \<times> app_state" where
  "playback e g off evs c = foldl (\<lambda>c ev. step e g off ev c) c evs"

section \<open>Starting a debate\<close>

definition initializeAudio :: "env \<Rightarrow> app_state \<Rightarrow> js_error option \<times> app_state" where
  "initializeAudio e s =
     (if \<not> audioContextRef s then
        (case newAudioContext e of
           None \<Rightarrow> (None, s\<lparr>audioContextRef := True\<rparr>)
         | Some err \<Rightarrow>
             (Some err,
              log_action (ConsoleError ''Error creating AudioContext:'')
                (s\<lparr>error := Some ''Web Audio API is not supported in this browser.''\<rparr>)))
      else (None, s))"

text \<open>
  \<open>runDebate\<close> up to the first \<open>await\<close> of the playback loop. It returns the generated
  messages, which the loop keeps reading, and the control point reached; \<open>Inl\<close> is a
  throw.
\<close>

definition runDebate ::
  "env \<Rightarrow> DebateMessage list \<Rightarrow> (AIPersona \<Rightarrow> string) \<Rightarrow> string \<Rightarrow> app_state \<Rightarrow>
   (js_error + DebateMessage list \<times> pc) \<times> app_state" where
  "runDebate e systemMessages currentSides currentQuestion s =
     (case generateScript e systemMessages currentSides currentQuestion s of
        (Inl err, s1) \<Rightarrow> (Inl err, s1)
      | (Inr sc, s1) \<Rightarrow>
          let s2 = generateAnalysis e (currentHistory sc) s1;
              s3 = s2\<lparr>phase := DEBATING,
                      statusText := ''Debate script generated. Starting playback...''\<rparr>
          in case initializeAudio e s3 of
               (Some err, s4) \<Rightarrow> (Inl err, s4)
             | (None, s4) \<Rightarrow>
                 (case loopHead (generatedMessages sc) (length systemMessages) 0 s4 of
                    (c, s5) \<Rightarrow> (Inr (generatedMessages sc, c), s5)))"

text \<open>
  Strings are sequences of code units in the range U+0000 to U+00FF. The white space that
  \<open>trim\<close> removes and \<open>\s\<close> matches, in that range: tab, line feed, vertical tab, form
  feed, carriage return, space and no-break space.
\<close>

definition is_js_space :: "char \<Rightarrow> bool" where
  "is_js_space c = (of_char c \<in> {9, 10, 11, 12, 13, 32, 160 :: nat})"

definition systemMessagesFor :: "string \<Rightarrow> string \<Rightarrow> string \<Rightarrow> DebateMessage list" where
  "systemMessagesFor q sideA sideB =
     [\<lparr>persona = SYSTEM, msg_text = ''Topic: \"'' @ q @ ''\"'', isStreaming = None, sources = None\<rparr>,
      \<lparr>persona = SYSTEM, msg_text = ''Logos will argue: \"'' @ sideA @ ''\"'', isStreaming = None,
       sources = None\<rparr>,
      \<lparr>persona = SYSTEM, msg_text = ''Pathos will argue: \"'' @ sideB @ ''\"'', isStreaming = None,
       sources = None\<rparr>]"

definition handleStartDebate :: "env \<Rightarrow> app_state \<Rightarrow> DebateMessage list \<times> pc \<times> app_state" where
  "handleStartDebate e s =
     (if list_all is_js_space (question s)
      then ([], Returned, s\<lparr>error := Some ''Please enter a question to debate.''\<rparr>)
      else
        let s1 = s\<lparr>error := None, isSkippedRef := False, phase := ANALYZING, messages := [],
                  speakingMessageIndex := None, summary := None, comparison := None\<rparr>;
            s2 = s1\<lparr>statusText := ''Analyzing question and defining stances...''\<rparr>
        in case getDebateSides e (question s) of
             Inl err \<Rightarrow> ([], Returned, catchStart err s2)
           | Inr (sideA, sideB) \<Rightarrow>
               let currentSides = (\<lambda>p. case p of Logos \<Rightarrow> sideA | Pathos \<Rightarrow> sideB);
                   systemMessages = systemMessagesFor (question s) sideA sideB;
                   s3 = s2\<lparr>sides := currentSides, messages := systemMessages\<rparr>
               in case runDebate e systemMessages currentSides (question s) s3 of
                    (Inl err, s4) \<Rightarrow> ([], Returned, catchStart err s4)
                  | (Inr (generated, c), s4) \<Rightarrow> (generated, c, s4))"

section \<open>Scoring the debate\<close>

subsection \<open>Arithmetic on numbers\<close>

text \<open>
  The operations \<open>*\<close> and \<open>+\<close> give the exact result rounded to the nearest double, ties
  to even. \<open>rne\<close> rounds a rational to the nearest integer, ties to even; \<open>binade x\<close> is
  the exponent \<open>e\<close> with \<open>2\<^sup>e \<le> x < 2\<^sup>e\<^sup>+\<^sup>1\<close> of a positive \<open>x\<close>; \<open>ulp x\<close> is the spacing of the
  doubles around \<open>x\<close>, with 53 significant bits down to the exponent -1022 and the
  spacing of the subnormal numbers below. \<open>rnd\<close> rounds as if the exponent had no upper
  bound, and \<open>round64\<close> turns a result of magnitude \<open>2\<^sup>1\<^sup>0\<^sup>2\<^sup>4\<close> or more into an infinity.
\<close>

definition rne :: "rat \<Rightarrow> int" where
  "rne q =
     (let f = \<lfloor>q\<rfloor>; d = q - of_int f
      in if d < 1 / 2 then f else if 1 / 2 < d then f + 1 else if even f then f else f + 1)"

definition binade :: "rat \<Rightarrow> int" where
  "binade x = (if 1 \<le> x then bitlen \<lfloor>x\<rfloor> - 1 else - bitlen (\<lceil>1 / x\<rceil> - 1))"

definition ulp :: "rat \<Rightarrow> rat" where
  "ulp x = 2 powi (max (binade \<bar>x\<bar>) (- 1022) - 52)"

definition rnd :: "rat \<Rightarrow> rat" where
  "rnd x = (if x = 0 then 0 else of_int (rne (x / ulp x)) * ulp x)"

definition round64 :: "rat \<Rightarrow> number" where
  "round64 x =
     (let y = rnd x
      in if 2 ^ 1024 \<le> y then PosInfinity
         else if y \<le> - (2 ^ 1024) then NegInfinity
         else Finite y)"

text \<open>
  The sign of a number that is not \<open>NaN\<close>, and the infinity of a sign. A product with
  an infinity is \<open>NaN\<close> when the other factor is zero and the infinity of the product of
  the signs otherwise; the sum of the two opposite infinities is \<open>NaN\<close>.
\<close>

definition sign_of :: "number \<Rightarrow> rat" where
  "sign_of a = (case a of Finite x \<Rightarrow> sgn x | PosInfinity \<Rightarrow> 1 | NegInfinity \<Rightarrow> - 1 | NaN \<Rightarrow> 0)"

definition infinity_of :: "rat \<Rightarrow> number" where
  "infinity_of sg = (if sg = 0 then NaN else if 0 < sg then PosInfinity else NegInfinity)"

definition fmul :: "number \<Rightarrow> number \<Rightarrow> number" where
  "fmul a b =
     (case (a, b) of
        (NaN, _) \<Rightarrow> NaN
      | (_, NaN) \<Rightarrow> NaN
      | (Finite x, Finite y) \<Rightarrow> round64 (x * y)
      | _ \<Rightarrow> infinity_of (sign_of a * sign_of b))"

definition fadd :: "number \<Rightarrow> number \<Rightarrow> number" where
  "fadd a b =
     (case (a, b) of
        (NaN, _) \<Rightarrow> NaN
      | (_, NaN) \<Rightarrow> NaN
      | (Finite x, Finite y) \<Rightarrow> round64 (x + y)
      | (Finite x, _) \<Rightarrow> b
      | (_, Finite y) \<Rightarrow> a
      | _ \<Rightarrow> if a = b then a else NaN)"


text \<open>A number is falsy when it is zero or \<open>NaN\<close>.\<close>

definition truthy_number :: "number \<Rightarrow> bool" where
  "truthy_number a = (a \<noteq> Finite 0 \<and> a \<noteq> NaN)"

text \<open>A finite number between two bounds.\<close>

definition is_between :: "number \<Rightarrow> rat \<Rightarrow> rat \<Rightarrow> bool" where
  "is_between a lo hi = (case a of Finite x \<Rightarrow> lo \<le> x \<and> x \<le> hi | _ \<Rightarrow> False)"

text \<open>
  \<open>parseFloat(x.toFixed(2))\<close>. For a magnitude below \<open>10\<^sup>2\<^sup>1\<close>, \<open>toFixed(2)\<close> takes the
  integer \<open>n\<close> for which \<open>n / 100\<close> is nearest to the magnitude, the larger one of two, and
  writes \<open>n / 100\<close> in decimal, after a minus sign for a negative \<open>x\<close>; \<open>parseFloat\<close>
  reads that as the nearest double. From \<open>10\<^sup>2\<^sup>1\<close> on, and for the infinities and \<open>NaN\<close>,
  \<open>toFixed\<close> writes the number as \<open>String\<close> does, and \<open>parseFloat\<close> reads the same number
  back.
\<close>

definition toFixed2 :: "number \<Rightarrow> number" where
  "toFixed2 a =
     (case a of
        Finite x \<Rightarrow>
          if 10 ^ 21 \<le> \<bar>x\<bar> then Finite x
          else Finite (sgn x * rnd (of_int \<lfloor>\<bar>x\<bar> * 100 + 1 / 2\<rfloor> / 100))
      | _ \<Rightarrow> a)"

subsection \<open>Matching a criterion\<close>

text \<open>
  \<open>toLowerCase\<close> on the code units up to U+00FF: the letters A to Z, and the letters
  U+00C0 to U+00DE other than the multiplication sign, move up by 32, which sets the bit
  of value 32.
\<close>

definition is_upper :: "char \<Rightarrow> bool" where
  "is_upper c =
     (let n = of_char c :: nat
      in (65 \<le> n \<and> n \<le> 90) \<or> (192 \<le> n \<and> n \<le> 222 \<and> n \<noteq> 215))"

definition toLowerCase_char :: "char \<Rightarrow> char" where
  "toLowerCase_char c =
     (if is_upper c
      then (case c of Char b0 b1 b2 b3 b4 b5 b6 b7 \<Rightarrow> Char b0 b1 b2 b3 b4 True b6 b7)
      else c)"

definition toLowerCase :: "string \<Rightarrow> string" where
  "toLowerCase s = map toLowerCase_char s"

text \<open>
  \<open>\w\<close> matches the letters A to Z and a to z, the digits and the underscore;
  \<open>replace(/[^\w\s]/gi, '')\<close> removes every character that is neither that nor white space.
\<close>

definition is_word_char :: "char \<Rightarrow> bool" where
  "is_word_char c =
     (let n = of_char c :: nat
      in (48 \<le> n \<and> n \<le> 57) \<or> (65 \<le> n \<and> n \<le> 90) \<or> n = 95 \<or> (97 \<le> n \<and> n \<le> 122))"

definition strip_punctuation :: "string \<Rightarrow> string" where
  "strip_punctuation s = filter (\<lambda>c. is_word_char c \<or> is_js_space c) s"

subsection \<open>\<open>calculateFinalScore\<close> and \<open>handleVote\<close>\<close>

text \<open>
  The object \<open>scoreWeights\<close>, in the order of its keys; each weight is the double that its
  literal denotes.
\<close>

definition scoreWeights :: "(string \<times> number) list" where
  "scoreWeights =
     [(''Positioning'', round64 (10 / 100)),
      (''Argument'', round64 (20 / 100)),
      (''Evidence'', round64 (20 / 100)),
      (''Refutation'', round64 (15 / 100)),
      (''Coverage'', round64 (10 / 100)),
      (''Ethics'', round64 (10 / 100)),
      (''Clarity'', round64 (10 / 100)),
      (''Tone'', round64 (5 / 100))]"

text \<open>
  \<open>findKey\<close> is the \<open>find\<close> over \<open>Object.keys(scoreWeights)\<close>. \<open>addScore\<close> is the body of
  the \<open>forEach\<close>, from the running \<open>total\<close> to the next one; the test
  \<open>weightKey && scoreWeights[weightKey]\<close> asks for a key that is found and not empty, and a
  weight that is truthy.
\<close>

definition findKey :: "string \<Rightarrow> string option" where
  "findKey crit =
     List.find (\<lambda>key. toLowerCase key = strip_punctuation (toLowerCase crit)) (map fst scoreWeights)"

definition addScore :: "number \<Rightarrow> Score \<Rightarrow> number" where
  "addScore tot scoreItem =
     (case findKey (criteria scoreItem) of
        None \<Rightarrow> tot
      | Some weightKey \<Rightarrow>
          (case map_of scoreWeights weightKey of
             None \<Rightarrow> tot
           | Some w \<Rightarrow>
               if weightKey \<noteq> [] \<and> truthy_number w
               then fadd tot (fmul (score scoreItem) w)
               else tot))"

definition calculateFinalScore :: "Score list \<Rightarrow> number" where
  "calculateFinalScore scores = toFixed2 (foldl addScore (Finite 0) scores)"



subsection \<open>The contribution of an item\<close>

text \<open>
  What an item adds to the total, as a list with at most one number: the product of its
  score and the weight of the key whose lowercase form is the criterion, lowercased and
  with the characters removed that are neither letters, digits, underscores nor white
  space. \<open>full_marks\<close> is the product that the score 5 gives for a key.
\<close>

definition contribution :: "Score \<Rightarrow> number list" where
  "contribution s =
     (case map_of (map (\<lambda>kw. (toLowerCase (fst kw), snd kw)) scoreWeights)
             (strip_punctuation (toLowerCase (criteria s))) of
        None \<Rightarrow> []
      | Some w \<Rightarrow> [fmul (score s) w])"

definition full_marks :: "string \<Rightarrow> rat" where
  "full_marks k = (case map_of scoreWeights k of Some (Finite w) \<Rightarrow> rnd (5 * w) | _ \<Rightarrow> 0)"

text \<open>
  The same for a criterion without underscores, with the matching worded anew: the
  criterion is lowercased, stripped of every character that is neither a letter from A to
  Z or from a to z, a digit nor white space, and compared with the lowercased keys; the
  first key that is equal gives the weight.
\<close>

definition is_alnum :: "char \<Rightarrow> bool" where
  "is_alnum c =
     (let n = of_char c :: nat
      in (48 \<le> n \<and> n \<le> 57) \<or> (65 \<le> n \<and> n \<le> 90) \<or> (97 \<le> n \<and> n \<le> 122))"

definition weighted_score :: "Score \<Rightarrow> number list" where
  "weighted_score s =
     (case List.find
             (\<lambda>kw. toLowerCase (fst kw) =
                filter (\<lambda>c. is_alnum c \<or> is_js_space c) (toLowerCase (criteria s)))
             scoreWeights of
        None \<Rightarrow> []
      | Some kw \<Rightarrow> [fmul (score s) (snd kw)])"

subsection \<open>The aggregation as the specification words it\<close>

text \<open>
  The second reading of the aggregation follows the words of the specification, not the
  code. An item is a criterion with its raw score; a criterion is stripped of every
  character that is neither a letter, a digit nor white space, and lowercased; the
  weights are the decimal numbers of the rubric; the sum is exact; and the rounding to
  two decimals is the standard one, half away from zero.
\<close>

definition spec_normalize :: "string \<Rightarrow> string" where
  "spec_normalize s = toLowerCase (filter (\<lambda>c. is_alnum c \<or> is_js_space c) s)"

definition spec_weights :: "(string \<times> rat) list" where
  "spec_weights =
     [(''Positioning'', 10 / 100), (''Argument'', 20 / 100), (''Evidence'', 20 / 100),
      (''Refutation'', 15 / 100), (''Coverage'', 10 / 100), (''Ethics'', 10 / 100),
      (''Clarity'', 10 / 100), (''Tone'', 5 / 100)]"

definition spec_weight :: "string \<Rightarrow> rat" where
  "spec_weight crit =
     (case List.find (\<lambda>kw. spec_normalize (fst kw) = spec_normalize crit) spec_weights of
        None \<Rightarrow> 0
      | Some kw \<Rightarrow> snd kw)"

definition spec_round2 :: "rat \<Rightarrow> rat" where
  "spec_round2 x = sgn x * of_int \<lfloor>\<bar>x\<bar> * 100 + 1 / 2\<rfloor> / 100"

definition spec_finalScore :: "(string \<times> rat) list \<Rightarrow> rat" where
  "spec_finalScore items = spec_round2 (\<Sum>item\<leftarrow>items. snd item * spec_weight (fst item))"

section \<open>Properties of a debate run\<close>

subsection \<open>What script generation leaves untouched\<close>

lemma consumeStream_cells:
  "\<exists>m. snd (consumeStream i cs (r, s)) = s\<lparr>messages := m\<rparr>"
proof (induction cs arbitrary: r s)
  case Nil
  show ?case by (rule exI [of _ "messages s"]) simp
next
  case (Cons c cs)
  let ?r = "reduceChunk r c"
  from Cons.IH [where r = ?r and s = "showProgress i ?r s"] obtain m where
    "snd (consumeStream i cs (?r, showProgress i ?r s)) = (showProgress i ?r s)\<lparr>messages := m\<rparr>"
    by blast
  then show ?case
    by (intro exI [of _ m]) (simp add: Let_def showProgress_def)
qed

lemma generateTurn_cells:
  "\<exists>m t. snd (generateTurn e n stance q turn (sc, s)) = s\<lparr>messages := m, trace := t\<rparr>"
proof -
  obtain p stage where turn: "turn = (p, stage)" by (cases turn)
  let ?i = "n + length (generatedMessages sc)"
  let ?tmp = "\<lparr>persona = Persona p, msg_text = ''...'', isStreaming = Some True, sources = None\<rparr>"
  let ?s2 = "log_action (CallTurnStream p stage) (s\<lparr>messages := messages s @ [?tmp]\<rparr>)"
  show ?thesis
  proof (cases "generateDebateTurnStream e (currentHistory sc) p (stance p) stage q")
    case (Inl err)
    then show ?thesis
      using turn
      by (intro exI [of _ "messages s @ [?tmp]"] exI [of _ "trace s @ [CallTurnStream p stage]"])
         (simp add: generateTurn_def Let_def log_action_def)
  next
    case (Inr stream)
    obtain r s3 where cs: "consumeStream ?i (chunks stream) (reducer_init, ?s2) = (r, s3)"
      by (cases "consumeStream ?i (chunks stream) (reducer_init, ?s2)")
    from consumeStream_cells [of ?i "chunks stream" reducer_init ?s2] cs
    obtain m where s3: "s3 = ?s2\<lparr>messages := m\<rparr>" by auto
    show ?thesis
    proof (cases "failure stream")
      case None
      with Inr cs s3 turn show ?thesis
        by (intro exI [of _ "list_update m ?i (finalMessage p r)"]
              exI [of _ "trace s @ [CallTurnStream p stage]"])
           (simp add: generateTurn_def Let_def log_action_def)
    next
      case (Some err)
      with Inr cs s3 turn show ?thesis
        by (intro exI [of _ m] exI [of _ "trace s @ [CallTurnStream p stage]"])
           (simp add: generateTurn_def Let_def log_action_def)
    qed
  qed
qed

lemma generateTurns_cells:
  "\<exists>m t. snd (generateTurns e n stance q ts (sc, s)) = s\<lparr>messages := m, trace := t\<rparr>"
proof (induction ts arbitrary: sc s)
  case Nil
  show ?case by (intro exI [of _ "messages s"] exI [of _ "trace s"]) simp
next
  case (Cons turn ts)
  obtain res s1 where step: "generateTurn e n stance q turn (sc, s) = (res, s1)"
    by (cases "generateTurn e n stance q turn (sc, s)")
  from generateTurn_cells [of e n stance q turn sc s] step
  obtain m t where s1: "s1 = s\<lparr>messages := m, trace := t\<rparr>" by auto
  show ?case
  proof (cases res)
    case (Inl err)
    with step s1 show ?thesis by (intro exI [of _ m] exI [of _ t]) simp
  next
    case (Inr sc1)
    from Cons.IH [of sc1 s1] obtain m' t' where
      "snd (generateTurns e n stance q ts (sc1, s1)) = s1\<lparr>messages := m', trace := t'\<rparr>"
      by blast
    with step Inr s1 show ?thesis by (intro exI [of _ m'] exI [of _ t']) simp
  qed
qed

lemma generateScript_cells:
  "\<exists>m t. snd (generateScript e sys stance q s) =
     s\<lparr>messages := m, trace := t, statusText := ''Generating debate script...''\<rparr>"
proof -
  let ?s0 = "s\<lparr>statusText := ''Generating debate script...''\<rparr>"
  from generateTurns_cells [of e "length sys" stance q debateTurns
      "\<lparr>generatedMessages = [], currentHistory = sys\<rparr>" ?s0]
  obtain m t where "snd (generateScript e sys stance q s) = ?s0\<lparr>messages := m, trace := t\<rparr>"
    unfolding generateScript_def by blast
  then show ?thesis by (intro exI [of _ m] exI [of _ t]) simp
qed

lemma generateScript_ok:
  assumes "\<And>h p side stage. \<exists>stream.
             generateDebateTurnStream e h p side stage q = Inr stream \<and> failure stream = None"
  shows "\<exists>sc s'. generateScript e sys stance q s = (Inr sc, s') \<and>
           length (generatedMessages sc) = 6 \<and>
           currentHistory sc = sys @ generatedMessages sc"
proof -
  let ?s0 = "s\<lparr>statusText := ''Generating debate script...''\<rparr>"
  let ?sc0 = "\<lparr>generatedMessages = [], currentHistory = sys\<rparr>"
  from generateTurns_ok [OF assms, of "length sys" stance debateTurns ?sc0 ?s0]
  obtain sc s' where run: "generateTurns e (length sys) stance q debateTurns (?sc0, ?s0) = (Inr sc, s')"
    by blast
  from generateTurns_Inr [OF run] obtain ms where
    "generatedMessages sc = ms" "currentHistory sc = sys @ ms"
    "map persona ms = map (Persona \<circ> fst) debateTurns"
    by auto
  moreover from this have "length ms = 6"
    using length_map [of persona ms] by (simp add: debateTurns_def)
  ultimately show ?thesis
    using run by (simp add: generateScript_def)
qed

subsection \<open>Invariants of the playback loop\<close>

text \<open>The actions that request audio or start sound.\<close>

fun is_start :: "action \<Rightarrow> bool" where
  "is_start (CallGenerateSpeech i) = True"
| "is_start (CallPlayAudio i) = True"
| "is_start SourceStart = True"
| "is_start _ = False"

definition starts :: "action list \<Rightarrow> action list" where
  "starts tr = filter is_start tr"

text \<open>
  While the loop is suspended in a race, no skip to voting has been signalled and the
  interrupt promise of the iteration is armed and pending.
\<close>

definition armed :: "app_state \<Rightarrow> bool" where
  "armed s = (\<not> isSkippedRef s \<and> skipTrigger s \<and> interruptPromise s = None)"

fun consistent :: "pc \<times> app_state \<Rightarrow> bool" where
  "consistent (Returned, s) = True"
| "consistent (c, s) = armed s"

text \<open>The cells that hold the transcript and the analysis.\<close>

definition cells :: "app_state \<Rightarrow> Summary option \<times> ArgumentComparison list option \<times> DebateMessage list" where
  "cells s = (summary s, comparison s, messages s)"

lemma cells_loopExit: "cells (snd (loopExit s)) = cells s"
  by (simp add: loopExit_def cells_def Let_def)

lemma cells_loopHead: "cells (snd (loopHead g off i s)) = cells s"
  using cells_loopExit [of s]
  by (simp add: loopHead_def Let_def log_action_def) (simp add: cells_def)

lemma cells_afterPlayback: "cells (snd (afterPlayback g off i r s)) = cells s"
proof (cases r)
  case (Inl err)
  then show ?thesis
    by (simp add: afterPlayback_def cells_loopExit) (simp add: cells_def log_action_def)
next
  case (Inr v)
  then show ?thesis
    by (simp add: afterPlayback_def cells_loopExit cells_loopHead)
qed

lemma cells_startPlayback: "cells (snd (startPlayback e g off i d s)) = cells s"
  by (simp add: startPlayback_def Let_def cells_afterPlayback split: option.splits)
     (simp add: cells_def log_action_def catchStart_def)

lemma cells_afterSpeech: "cells (snd (afterSpeech e g off i r s)) = cells s"
proof (cases r)
  case (Inl err)
  then show ?thesis
    by (simp add: afterSpeech_def cells_loopExit) (simp add: cells_def log_action_def)
next
  case (Inr v)
  then show ?thesis
    by (cases v) (simp_all add: afterSpeech_def cells_loopExit cells_loopHead cells_startPlayback)
qed

lemma cells_handleSkip: "cells (handleSkip s) = cells s"
  by (simp add: handleSkip_def resolveInterrupt_def stopCurrentSource_def log_action_def cells_def)

lemma cells_handleSkipToVoting: "cells (handleSkipToVoting s) = cells s"
  by (simp add: handleSkipToVoting_def resolveInterrupt_def stopCurrentSource_def log_action_def
      cells_def Let_def)

lemma cells_afterClick:
  assumes "\<And>r s'. cells (snd (resume r s')) = cells s'"
  shows "cells (snd (afterClick resume here s)) = cells s"
  using assms by (simp add: afterClick_def split: option.splits)

lemma cells_abandonDecode: "cells (abandonDecode s) = cells s"
  by (simp add: abandonDecode_def cells_def)

lemma cells_background: "cells (backgroundDecoded s) = cells s" "cells (sourceEnded s) = cells s"
  "cells (startSource s) = cells s"
  by (simp_all add: backgroundDecoded_def sourceEnded_def startSource_def log_action_def cells_def Let_def)

lemmas cells_simps =
  cells_loopExit cells_loopHead cells_afterPlayback cells_startPlayback cells_afterSpeech
  cells_handleSkip cells_handleSkipToVoting cells_afterClick cells_abandonDecode cells_background

lemma cells_step: "cells (snd (step e g off ev (c, s))) = cells s"
proof (cases ev)
  case (Settle r)
  then show ?thesis by (cases c; cases r) (simp_all add: cells_simps)
next
  case Ended
  then show ?thesis by (cases c) (simp_all add: cells_simps)
next
  case BackgroundDecoded
  then show ?thesis by (cases c) (simp_all add: cells_simps)
next
  case ClickSkip
  then show ?thesis by (cases c) (simp_all add: cells_simps)
next
  case ClickSkipToVoting
  then show ?thesis by (cases c) (simp_all add: cells_simps)
qed

lemma cells_playback: "cells (snd (playback e g off evs c)) = cells (snd c)"
proof (induction evs arbitrary: c)
  case Nil
  show ?case by (simp add: playback_def)
next
  case (Cons ev evs)
  obtain p s where c: "c = (p, s)" by (cases c)
  from Cons [of "step e g off ev c"] cells_step [of e g off ev p s] c
  show ?case by (simp add: playback_def)
qed

lemma consistent_loopExit: "consistent (loopExit s)"
  by (simp add: loopExit_def Let_def)

lemma consistent_loopHead: "consistent (loopHead g off i s)"
  by (simp add: loopHead_def Let_def consistent_loopExit log_action_def armed_def)

lemma consistent_afterPlayback: "consistent (afterPlayback g off i r s)"
  by (cases r) (simp_all add: afterPlayback_def consistent_loopExit consistent_loopHead)

lemma consistent_startPlayback: "armed s \<Longrightarrow> consistent (startPlayback e g off i d s)"
  by (simp add: startPlayback_def Let_def consistent_afterPlayback split: option.splits)
     (simp add: armed_def log_action_def)

lemma consistent_afterSpeech: "armed s \<Longrightarrow> consistent (afterSpeech e g off i r s)"
proof (cases r)
  case (Inl err)
  then show ?thesis by (simp add: afterSpeech_def consistent_loopExit)
next
  case (Inr v)
  assume "armed s"
  with Inr show ?thesis
    by (cases v)
       (simp_all add: afterSpeech_def consistent_loopExit consistent_loopHead consistent_startPlayback)
qed

lemma consistent_afterSpeech_tag:
  "v = ''turn'' \<or> v = ''voting'' \<Longrightarrow> consistent (afterSpeech e g off i (Inr (Str v)) s)"
  by (auto simp: afterSpeech_def consistent_loopExit consistent_loopHead)

lemma armed_handleSkip:
  "armed s \<Longrightarrow> interruptPromise (handleSkip s) = Some ''turn''"
  by (simp add: armed_def handleSkip_def resolveInterrupt_def stopCurrentSource_def log_action_def)

lemma armed_handleSkipToVoting:
  "armed s \<Longrightarrow> interruptPromise (handleSkipToVoting s) = Some ''voting''"
  by (simp add: armed_def handleSkipToVoting_def resolveInterrupt_def stopCurrentSource_def
      log_action_def Let_def)

lemma armed_background:
  "armed s \<Longrightarrow> armed (sourceEnded s)" "armed s \<Longrightarrow> armed (backgroundDecoded s)"
  "armed s \<Longrightarrow> armed (startSource s)"
  by (simp_all add: armed_def sourceEnded_def backgroundDecoded_def startSource_def log_action_def Let_def)

lemma consistent_step:
  assumes "consistent (c, s)"
  shows "consistent (step e g off ev (c, s))"
proof (cases c)
  case Returned
  then show ?thesis by (cases ev) simp_all
next
  case (AwaitSpeech i)
  with assms have a: "armed s" by simp
  show ?thesis
  proof (cases ev)
    case (Settle r)
    with AwaitSpeech a show ?thesis by (simp add: consistent_afterSpeech)
  next
    case ClickSkip
    with AwaitSpeech armed_handleSkip [OF a] show ?thesis
      by (simp add: afterClick_def consistent_afterSpeech_tag)
  next
    case ClickSkipToVoting
    with AwaitSpeech armed_handleSkipToVoting [OF a] show ?thesis
      by (simp add: afterClick_def consistent_afterSpeech_tag)
  qed (use AwaitSpeech a armed_background in simp_all)
next
  case (AwaitDecode i)
  with assms have a: "armed s" by simp
  show ?thesis
  proof (cases ev)
    case (Settle r)
    with AwaitDecode a armed_background show ?thesis
      by (cases r) (simp_all add: consistent_afterPlayback)
  next
    case ClickSkip
    with AwaitDecode armed_handleSkip [OF a] show ?thesis
      by (simp add: afterClick_def consistent_afterPlayback)
  next
    case ClickSkipToVoting
    with AwaitDecode armed_handleSkipToVoting [OF a] show ?thesis
      by (simp add: afterClick_def consistent_afterPlayback)
  qed (use AwaitDecode a armed_background in simp_all)
next
  case (AwaitSound i)
  with assms have a: "armed s" by simp
  show ?thesis
  proof (cases ev)
    case ClickSkip
    with AwaitSound armed_handleSkip [OF a] show ?thesis
      by (simp add: afterClick_def consistent_afterPlayback)
  next
    case ClickSkipToVoting
    with AwaitSound armed_handleSkipToVoting [OF a] show ?thesis
      by (simp add: afterClick_def consistent_afterPlayback)
  qed (use AwaitSound a armed_background in \<open>simp_all add: consistent_afterPlayback\<close>)
qed

lemma consistent_playback: "consistent c \<Longrightarrow> consistent (playback e g off evs c)"
proof (induction evs arbitrary: c)
  case Nil
  then show ?case by (simp add: playback_def)
next
  case (Cons ev evs)
  obtain p s where c: "c = (p, s)" by (cases c)
  from Cons.prems c have "consistent (step e g off ev c)" by (simp add: consistent_step)
  from Cons.IH [OF this] show ?case by (simp add: playback_def)
qed

text \<open>The requests the loop itself issues: \<open>generateSpeech\<close> and \<open>playAudio\<close>.\<close>

fun is_request :: "action \<Rightarrow> bool" where
  "is_request (CallGenerateSpeech i) = True"
| "is_request (CallPlayAudio i) = True"
| "is_request _ = False"

definition requests :: "action list \<Rightarrow> action list" where
  "requests tr = filter is_request tr"

lemma playback_append: "playback e g off (xs @ ys) c = playback e g off ys (playback e g off xs c)"
  by (simp add: playback_def)

lemma playback_Cons: "playback e g off (ev # evs) c = playback e g off evs (step e g off ev c)"
  by (simp add: playback_def)

lemma playback_Nil: "playback e g off [] c = c"
  by (simp add: playback_def)

subsection \<open>After a skip to voting\<close>

lemma sticky_step:
  assumes "isSkippedRef s"
  shows "\<exists>s'. step e g off ev (Returned, s) = (Returned, s') \<and> isSkippedRef s' \<and>
              starts (trace s') = starts (trace s) \<and> phase s' = phase s"
  using assms
  by (cases ev)
     (simp_all add: handleSkip_def handleSkipToVoting_def resolveInterrupt_def stopCurrentSource_def
        log_action_def sourceEnded_def backgroundDecoded_def Let_def starts_def)

lemma sticky_playback:
  assumes "isSkippedRef s"
  shows "\<exists>s'. playback e g off evs (Returned, s) = (Returned, s') \<and> isSkippedRef s' \<and>
              starts (trace s') = starts (trace s) \<and> phase s' = phase s"
  using assms
proof (induction evs arbitrary: s)
  case Nil
  then show ?case by (simp add: playback_Nil)
next
  case (Cons ev evs)
  from sticky_step [OF Cons.prems, of e g off ev] obtain s1 where
    s1: "step e g off ev (Returned, s) = (Returned, s1)" "isSkippedRef s1"
      "starts (trace s1) = starts (trace s)" "phase s1 = phase s"
    by blast
  from Cons.IH [OF s1(2)] s1 show ?case by (auto simp: playback_Cons)
qed

lemma handleSkipToVoting_facts:
  "isSkippedRef (handleSkipToVoting s)"
  "starts (trace (handleSkipToVoting s)) = starts (trace s)"
  "\<not> isSkippedRef s \<Longrightarrow> phase (handleSkipToVoting s) = VOTING"
  by (simp_all add: handleSkipToVoting_def resolveInterrupt_def stopCurrentSource_def
      log_action_def Let_def starts_def)

lemma loopExit_skipped:
  "isSkippedRef s \<Longrightarrow> loopExit s = (Returned, s\<lparr>skipTrigger := False\<rparr>)"
  by (simp add: loopExit_def Let_def)

lemma skip_to_voting_step:
  assumes "consistent (c, s)"
  shows "\<exists>s'. step e g off ClickSkipToVoting (c, s) = (Returned, s') \<and> isSkippedRef s' \<and>
              starts (trace s') = starts (trace s) \<and>
              (if isSkippedRef s then True else phase s' = VOTING)"
proof (cases c)
  case Returned
  then show ?thesis using handleSkipToVoting_facts [of s] by simp
next
  case (AwaitSpeech i)
  with assms have a: "armed s" by simp
  then have ns: "\<not> isSkippedRef s" by (simp add: armed_def)
  from AwaitSpeech armed_handleSkipToVoting [OF a] handleSkipToVoting_facts [of s] ns
  show ?thesis
    by (simp add: afterClick_def afterSpeech_def loopExit_skipped)
next
  case (AwaitDecode i)
  with assms have a: "armed s" by simp
  then have ns: "\<not> isSkippedRef s" by (simp add: armed_def)
  from AwaitDecode armed_handleSkipToVoting [OF a] handleSkipToVoting_facts [of s] ns
  show ?thesis
    by (simp add: afterClick_def afterPlayback_def loopExit_skipped abandonDecode_def)
next
  case (AwaitSound i)
  with assms have a: "armed s" by simp
  then have ns: "\<not> isSkippedRef s" by (simp add: armed_def)
  from AwaitSound armed_handleSkipToVoting [OF a] handleSkipToVoting_facts [of s] ns
  show ?thesis
    by (simp add: afterClick_def afterPlayback_def loopExit_skipped)
qed

text \<open>
  C8. At every point a playback loop can reach, a click on "Skip to Voting" ends the
  loop within that one step: the loop has returned, the skip flag is set and the phase is
  VOTING. Whatever happens afterwards (promises in flight settling, decoded audio
  arriving, further clicks), the loop stays returned, no audio request and no sound is
  started, and the phase stays. A second click changes nothing.
\<close>

theorem skip_to_voting_sticky:
  assumes "c = playback e g off pre (loopHead g off 0 s0)"
  shows "fst (step e g off ClickSkipToVoting c) = Returned \<and>
         isSkippedRef (snd (step e g off ClickSkipToVoting c)) \<and>
         (if isSkippedRef (snd c) then True
          else phase (snd (step e g off ClickSkipToVoting c)) = VOTING) \<and>
         (\<forall>evs.
            fst (playback e g off evs (step e g off ClickSkipToVoting c)) = Returned \<and>
            starts (trace (snd (playback e g off evs (step e g off ClickSkipToVoting c)))) =
              starts (trace (snd c)) \<and>
            phase (snd (playback e g off evs (step e g off ClickSkipToVoting c))) =
              phase (snd (step e g off ClickSkipToVoting c))) \<and>
         step e g off ClickSkipToVoting (step e g off ClickSkipToVoting c) =
           step e g off ClickSkipToVoting c"
proof -
  obtain p s where c: "c = (p, s)" by (cases c)
  have "consistent c"
    unfolding assms by (rule consistent_playback) (rule consistent_loopHead)
  with c have "consistent (p, s)" by simp
  from skip_to_voting_step [OF this, of e g off] obtain s' where
    s': "step e g off ClickSkipToVoting (p, s) = (Returned, s')" "isSkippedRef s'"
      "starts (trace s') = starts (trace s)"
      "if isSkippedRef s then True else phase s' = VOTING"
    by blast
  have later: "fst (playback e g off evs (Returned, s')) = Returned \<and>
      starts (trace (snd (playback e g off evs (Returned, s')))) = starts (trace s) \<and>
      phase (snd (playback e g off evs (Returned, s'))) = phase s'" for evs
    using sticky_playback [OF s'(2), of e g off evs] s'(3) by auto
  have again: "step e g off ClickSkipToVoting (Returned, s') = (Returned, s')"
    using s'(2) by (simp add: handleSkipToVoting_def)
  from s' later again show ?thesis
    unfolding c by simp
qed

subsection \<open>Starting a debate successfully\<close>

lemma generateAnalysis_cells:
  "\<exists>st t sm cp. generateAnalysis e h s = s\<lparr>statusText := st, trace := t, summary := sm, comparison := cp\<rparr> \<and>
     (case (generateDebateSummary e h, generateArgumentComparison e h) of
        (Inr x, Inr y) \<Rightarrow> sm = Some x \<and> cp = Some y
      | _ \<Rightarrow> sm = summary s \<and> cp = comparison s \<and>
             ConsoleError ''Failed to generate post-debate analysis:'' \<in> set t)"
proof (cases "generateDebateSummary e h")
  case (Inl err)
  then show ?thesis
    by (intro exI [of _ "''Generating debate summary and analysis...''"]
          exI [of _ "trace s @ [CallSummary, CallComparison,
                 ConsoleError ''Failed to generate post-debate analysis:'']"]
          exI [of _ "summary s"] exI [of _ "comparison s"])
       (simp add: generateAnalysis_def Let_def log_action_def)
next
  case (Inr x)
  show ?thesis
  proof (cases "generateArgumentComparison e h")
    case (Inl err)
    with Inr show ?thesis
      by (intro exI [of _ "''Generating debate summary and analysis...''"]
          exI [of _ "trace s @ [CallSummary, CallComparison,
                 ConsoleError ''Failed to generate post-debate analysis:'']"]
          exI [of _ "summary s"] exI [of _ "comparison s"])
       (simp add: generateAnalysis_def Let_def log_action_def)
  next
    case (Inr y)
    with \<open>generateDebateSummary e h = Inr x\<close> show ?thesis
      by (intro exI [of _ "''Generating debate summary and analysis...''"]
          exI [of _ "trace s @ [CallSummary, CallComparison]"]
          exI [of _ "Some x"] exI [of _ "Some y"])
       (simp add: generateAnalysis_def Let_def log_action_def)
  qed
qed

lemma length_systemMessagesFor: "length (systemMessagesFor q a b) = 3"
  by (simp add: systemMessagesFor_def)

lemma handleStartDebate_ok:
  assumes blank: "\<not> list_all is_js_space (question s)"
    and sides: "getDebateSides e (question s) = Inr (a, b)"
    and streams: "\<And>h p side stage. \<exists>stream.
       generateDebateTurnStream e h p side stage (question s) = Inr stream \<and> failure stream = None"
    and audio: "newAudioContext e = None"
  shows "\<exists>g s4. handleStartDebate e s = (g, loopHead g 3 0 s4) \<and> length g = 6 \<and>
           \<not> isSkippedRef s4 \<and> audioContextRef s4 \<and> error s4 = None \<and> phase s4 = DEBATING \<and>
           (case (generateDebateSummary e (systemMessagesFor (question s) a b @ g),
                  generateArgumentComparison e (systemMessagesFor (question s) a b @ g)) of
              (Inr x, Inr y) \<Rightarrow> summary s4 = Some x \<and> comparison s4 = Some y
            | _ \<Rightarrow> summary s4 = None \<and> comparison s4 = None \<and>
                   ConsoleError ''Failed to generate post-debate analysis:'' \<in> set (trace s4))"
proof -
  let ?q = "question s"
  let ?sys = "systemMessagesFor ?q a b"
  let ?cs = "\<lambda>p. case p of Logos \<Rightarrow> a | Pathos \<Rightarrow> b"
  let ?s3 = "s\<lparr>error := None, isSkippedRef := False, phase := ANALYZING, messages := [],
               speakingMessageIndex := None, summary := None, comparison := None,
               statusText := ''Analyzing question and defining stances...'',
               sides := ?cs, messages := ?sys\<rparr>"
  from generateScript_ok [OF streams, of ?sys ?cs ?s3] obtain sc s1 where
    gs: "generateScript e ?sys ?cs ?q ?s3 = (Inr sc, s1)"
    and len: "length (generatedMessages sc) = 6"
    and hist: "currentHistory sc = ?sys @ generatedMessages sc"
    by blast
  from generateScript_cells [of e ?sys ?cs ?q ?s3] gs obtain m t where
    s1: "s1 = ?s3\<lparr>messages := m, trace := t, statusText := ''Generating debate script...''\<rparr>"
    by auto
  from generateAnalysis_cells [of e "currentHistory sc" s1] obtain st t' sm cp where
    s2: "generateAnalysis e (currentHistory sc) s1 =
           s1\<lparr>statusText := st, trace := t', summary := sm, comparison := cp\<rparr>"
    and an: "case (generateDebateSummary e (currentHistory sc),
                   generateArgumentComparison e (currentHistory sc)) of
               (Inr x, Inr y) \<Rightarrow> sm = Some x \<and> cp = Some y
             | _ \<Rightarrow> sm = summary s1 \<and> cp = comparison s1 \<and>
                    ConsoleError ''Failed to generate post-debate analysis:'' \<in> set t'"
    by blast
  let ?s3' = "(generateAnalysis e (currentHistory sc) s1)
                \<lparr>phase := DEBATING, statusText := ''Debate script generated. Starting playback...''\<rparr>"
  define s4 where "s4 = (if audioContextRef ?s3' then ?s3' else ?s3'\<lparr>audioContextRef := True\<rparr>)"
  have init: "initializeAudio e ?s3' = (None, s4)"
    using audio by (simp add: initializeAudio_def s4_def)
  have run: "handleStartDebate e s = (generatedMessages sc, loopHead (generatedMessages sc) 3 0 s4)"
    using blank sides gs init
    by (simp add: handleStartDebate_def runDebate_def Let_def length_systemMessagesFor
        split: prod.splits)
  have an': "case (generateDebateSummary e (?sys @ generatedMessages sc),
                   generateArgumentComparison e (?sys @ generatedMessages sc)) of
               (Inr x, Inr y) \<Rightarrow> sm = Some x \<and> cp = Some y
             | _ \<Rightarrow> sm = None \<and> cp = None \<and>
                    ConsoleError ''Failed to generate post-debate analysis:'' \<in> set t'"
    using an unfolding hist s1 by (simp split: sum.splits)
  have props: "\<not> isSkippedRef s4" "audioContextRef s4" "error s4 = None" "phase s4 = DEBATING"
    and cellsv: "summary s4 = sm" "comparison s4 = cp" "trace s4 = t'"
    unfolding s4_def s2 by (simp_all add: s1)
  have fin: "case (generateDebateSummary e (?sys @ generatedMessages sc),
                   generateArgumentComparison e (?sys @ generatedMessages sc)) of
               (Inr x, Inr y) \<Rightarrow> summary s4 = Some x \<and> comparison s4 = Some y
             | _ \<Rightarrow> summary s4 = None \<and> comparison s4 = None \<and>
                    ConsoleError ''Failed to generate post-debate analysis:'' \<in> set (trace s4)"
    using an' unfolding cellsv .
  from run len props fin show ?thesis by blast
qed

subsection \<open>Playback without interruption\<close>

text \<open>
  The events of one turn that nobody interrupts: the audio arrives, it is decoded, the
  source plays to its end.
\<close>

definition turn_events :: "string \<Rightarrow> event list" where
  "turn_events d = [Settle (Inr (Str d)), Settle (Inr Undefined), Ended]"

text \<open>The scenario: six turns played without interruption.\<close>

definition demo_events :: "event list" where
  "demo_events = concat (replicate 6 (turn_events ''UklGRiQAAABXQVZF''))"

definition demo_start :: "DebateMessage list \<times> pc \<times> app_state" where
  "demo_start = handleStartDebate demo_env (initial_state\<lparr>question := ''Should AI have rights?''\<rparr>)"

definition demo_final :: "pc \<times> app_state" where
  "demo_final = playback demo_env (fst demo_start) 3 demo_events (snd demo_start)"

lemma one_turn:
  assumes "i < length g" "length g \<le> length debateTurns" "\<not> isSkippedRef s" "audioContextRef s"
    "decode e d = None" "d \<noteq> []" "d \<noteq> ''voting''" "d \<noteq> ''turn''"
  shows "\<exists>s'. playback e g off (turn_events d) (loopHead g off i s) = loopHead g off (i + 1) s' \<and>
              \<not> isSkippedRef s' \<and> audioContextRef s' \<and> error s' = error s"
proof -
  obtain s1 where s1: "loopHead g off i s = (AwaitSpeech i, s1)"
    "\<not> isSkippedRef s1" "audioContextRef s1" "error s1 = error s"
    using assms by (simp add: loopHead_def Let_def log_action_def)
  obtain s2 where s2: "step e g off (Settle (Inr (Str d))) (AwaitSpeech i, s1) = (AwaitDecode i, s2)"
    "\<not> isSkippedRef s2" "audioContextRef s2" "error s2 = error s"
    using assms s1 by (simp add: afterSpeech_def startPlayback_def Let_def log_action_def)
  obtain s3 where s3: "step e g off (Settle (Inr Undefined)) (AwaitDecode i, s2) = (AwaitSound i, s3)"
    "\<not> isSkippedRef s3" "audioContextRef s3" "error s3 = error s"
    using s2 by (simp add: startSource_def log_action_def)
  have "step e g off Ended (AwaitSound i, s3) = loopHead g off (i + 1) (sourceEnded s3)"
    by (simp add: afterPlayback_def)
  moreover have "\<not> isSkippedRef (sourceEnded s3)" "audioContextRef (sourceEnded s3)"
    "error (sourceEnded s3) = error s"
    using s3 by (simp_all add: sourceEnded_def)
  ultimately show ?thesis
    using s1 s2 s3 by (intro exI [of _ "sourceEnded s3"]) (simp add: turn_events_def playback_def)
qed

lemma playback_uninterrupted:
  assumes "length g \<le> length debateTurns" "decode e d = None" "d \<noteq> []" "d \<noteq> ''voting''"
    "d \<noteq> ''turn''"
  shows "k = length g - i \<Longrightarrow> i \<le> length g \<Longrightarrow> \<not> isSkippedRef s \<Longrightarrow> audioContextRef s \<Longrightarrow>
         \<exists>s'. playback e g off (concat (replicate k (turn_events d))) (loopHead g off i s) =
                 (Returned, s') \<and>
              phase s' = VOTING \<and> error s' = error s \<and> \<not> isSkippedRef s'"
proof (induction k arbitrary: i s)
  case 0
  then have "i = length g" by simp
  with 0 show ?case
    by (simp add: playback_Nil loopHead_def loopExit_def Let_def)
next
  case (Suc k)
  then have i: "i < length g" by simp
  from one_turn [OF i assms(1) Suc.prems(3,4) assms(2-5), of off] obtain s1 where
    s1: "playback e g off (turn_events d) (loopHead g off i s) = loopHead g off (i + 1) s1"
      "\<not> isSkippedRef s1" "audioContextRef s1" "error s1 = error s"
    by blast
  from Suc.prems i have "k = length g - (i + 1)" "i + 1 \<le> length g" by simp_all
  from Suc.IH [OF this s1(2,3)] s1 show ?case
    by (simp add: playback_append)
qed

lemma demo_start_facts:
  "\<exists>g s4. demo_start = (g, loopHead g 3 0 s4) \<and> length g = 6 \<and> \<not> isSkippedRef s4 \<and>
          audioContextRef s4 \<and> error s4 = None \<and> phase s4 = DEBATING \<and>
          summary s4 = None \<and> comparison s4 = None"
proof -
  let ?s = "initial_state\<lparr>question := ''Should AI have rights?''\<rparr>"
  have q: "question ?s = ''Should AI have rights?''" by simp
  have h1: "\<not> list_all is_js_space (question ?s)"
    by (simp add: is_js_space_def)
  have h2: "getDebateSides demo_env (question ?s) = Inr (''AI should have rights'', ''AI should not have rights'')"
    by (simp add: demo_env_def)
  have h3: "\<exists>stream. generateDebateTurnStream demo_env h p side stage (question ?s) = Inr stream \<and>
       failure stream = None" for h p side stage
    by (simp add: demo_env_def)
  have h4: "newAudioContext demo_env = None" by (simp add: demo_env_def)
  from handleStartDebate_ok [OF h1 h2 h3 h4] obtain g s4 where
    "handleStartDebate demo_env ?s = (g, loopHead g 3 0 s4)" "length g = 6" "\<not> isSkippedRef s4"
    "audioContextRef s4" "error s4 = None" "phase s4 = DEBATING"
    "case (generateDebateSummary demo_env (systemMessagesFor (question ?s) ''AI should have rights'' ''AI should not have rights'' @ g),
           generateArgumentComparison demo_env (systemMessagesFor (question ?s) ''AI should have rights'' ''AI should not have rights'' @ g)) of
              (Inr x, Inr y) \<Rightarrow> summary s4 = Some x \<and> comparison s4 = Some y
            | _ \<Rightarrow> summary s4 = None \<and> comparison s4 = None \<and>
                   ConsoleError ''Failed to generate post-debate analysis:'' \<in> set (trace s4)"
    by blast
  moreover from this(7) have "summary s4 = None \<and> comparison s4 = None"
    by (simp add: demo_env_def)
  ultimately show ?thesis unfolding demo_start_def by blast
qed

subsection \<open>Post-debate analysis\<close>

text \<open>
  C1, as stated, fails. In the scenario the summary request succeeds and the comparison
  request fails; all six turns play and the phase reaches VOTING with no error shown,
  but the summary is absent as well as the comparison.
\<close>

theorem analysis_partial_failure_loses_both:
  "generateDebateSummary demo_env (systemMessagesFor ''Should AI have rights?''
       ''AI should have rights'' ''AI should not have rights'' @ fst demo_start) =
     Inr \<lparr>logosSummary = [''l1'', ''l2'', ''l3''], pathosSummary = [''p1'', ''p2'', ''p3'']\<rparr> \<and>
   fst demo_final = Returned \<and> phase (snd demo_final) = VOTING \<and>
   error (snd demo_final) = None \<and>
   summary (snd demo_final) = None \<and> comparison (snd demo_final) = None"
proof -
  from demo_start_facts obtain g s4 where
    st: "demo_start = (g, loopHead g 3 0 s4)" and len: "length g = 6"
    and s4: "\<not> isSkippedRef s4" "audioContextRef s4" "error s4 = None"
      "summary s4 = None" "comparison s4 = None"
    by blast
  have g: "length g \<le> length debateTurns" using len by (simp add: debateTurns_def)
  have d: "decode demo_env ''UklGRiQAAABXQVZF'' = None" by (simp add: demo_env_def)
  from playback_uninterrupted [OF g d, of 6 0 s4 3] len s4 obtain s' where
    fin: "playback demo_env g 3 demo_events (loopHead g 3 0 s4) = (Returned, s')"
      "phase s' = VOTING" "error s' = None"
    by (auto simp: demo_events_def)
  have "cells (snd (playback demo_env g 3 demo_events (loopHead g 3 0 s4))) = cells s4"
    by (simp add: cells_playback cells_loopHead)
  with fin s4 have an: "summary s' = None" "comparison s' = None"
    by (simp_all add: cells_def)
  have df: "demo_final = (Returned, s')"
    unfolding demo_final_def st using fin(1) by simp
  have "generateDebateSummary demo_env h =
      Inr \<lparr>logosSummary = [''l1'', ''l2'', ''l3''], pathosSummary = [''p1'', ''p2'', ''p3'']\<rparr>" for h
    by (simp add: demo_env_def)
  then show ?thesis
    unfolding df using fin(2,3) an by simp
qed

lemma loopHead_begin:
  assumes "i < length g" "\<not> isSkippedRef s"
  shows "\<exists>s'. loopHead g off i s = (AwaitSpeech i, s') \<and> \<not> isSkippedRef s' \<and>
           phase s' = phase s \<and> error s' = error s \<and> summary s' = summary s \<and>
           comparison s' = comparison s \<and> audioContextRef s' = audioContextRef s \<and>
           trace s' = trace s @ [CallGenerateSpeech i]"
  using assms by (simp add: loopHead_def Let_def log_action_def)

text \<open>
  C1, amended. The two requests are issued together and joined all-or-nothing: when
  both succeed both results are stored; when either fails neither is stored, the failure
  is logged to the console and no error is shown. In both cases the debate proceeds to
  playback (phase DEBATING, the first audio request pending), and playback never changes
  the two results.
\<close>

theorem analysis_all_or_nothing:
  assumes "\<not> list_all is_js_space (question s)"
    and "getDebateSides e (question s) = Inr (a, b)"
    and "\<And>h p side stage. \<exists>stream.
       generateDebateTurnStream e h p side stage (question s) = Inr stream \<and> failure stream = None"
    and "newAudioContext e = None"
  shows "\<exists>g c s'. handleStartDebate e s = (g, c, s') \<and> c = AwaitSpeech 0 \<and>
           phase s' = DEBATING \<and> error s' = None \<and>
           (case (generateDebateSummary e (systemMessagesFor (question s) a b @ g),
                  generateArgumentComparison e (systemMessagesFor (question s) a b @ g)) of
              (Inr x, Inr y) \<Rightarrow> summary s' = Some x \<and> comparison s' = Some y
            | _ \<Rightarrow> summary s' = None \<and> comparison s' = None \<and>
                   ConsoleError ''Failed to generate post-debate analysis:'' \<in> set (trace s')) \<and>
           (\<forall>evs. summary (snd (playback e g 3 evs (c, s'))) = summary s' \<and>
                  comparison (snd (playback e g 3 evs (c, s'))) = comparison s')"
proof -
  from handleStartDebate_ok [OF assms] obtain g s4 where
    run: "handleStartDebate e s = (g, loopHead g 3 0 s4)" and len: "length g = 6"
    and s4: "\<not> isSkippedRef s4" "error s4 = None" "phase s4 = DEBATING"
    and an: "case (generateDebateSummary e (systemMessagesFor (question s) a b @ g),
                  generateArgumentComparison e (systemMessagesFor (question s) a b @ g)) of
              (Inr x, Inr y) \<Rightarrow> summary s4 = Some x \<and> comparison s4 = Some y
            | _ \<Rightarrow> summary s4 = None \<and> comparison s4 = None \<and>
                   ConsoleError ''Failed to generate post-debate analysis:'' \<in> set (trace s4)"
    by blast
  from len have "0 < length g" by simp
  from loopHead_begin [OF this s4(1), of 3] obtain s' where
    s': "loopHead g 3 0 s4 = (AwaitSpeech 0, s')" "phase s' = phase s4" "error s' = error s4"
      "summary s' = summary s4" "comparison s' = comparison s4"
      "trace s' = trace s4 @ [CallGenerateSpeech 0]"
    by blast
  have an': "case (generateDebateSummary e (systemMessagesFor (question s) a b @ g),
                  generateArgumentComparison e (systemMessagesFor (question s) a b @ g)) of
              (Inr x, Inr y) \<Rightarrow> summary s' = Some x \<and> comparison s' = Some y
            | _ \<Rightarrow> summary s' = None \<and> comparison s' = None \<and>
                   ConsoleError ''Failed to generate post-debate analysis:'' \<in> set (trace s')"
    using an s'(4-6) by (simp split: sum.splits)
  have later: "summary (snd (playback e g 3 evs (AwaitSpeech 0, s'))) = summary s' \<and>
               comparison (snd (playback e g 3 evs (AwaitSpeech 0, s'))) = comparison s'" for evs
    using cells_playback [of e g 3 evs "(AwaitSpeech 0, s')"] by (simp add: cells_def)
  have "handleStartDebate e s = (g, AwaitSpeech 0, s')" using run s'(1) by simp
  moreover have "phase s' = DEBATING" "error s' = None" using s' s4 by simp_all
  ultimately show ?thesis using an' later by blast
qed

theorem analysis_all_or_nothing_witness:
  "\<exists>g c s'. handleStartDebate demo_env (initial_state\<lparr>question := ''Should AI have rights?''\<rparr>) =
       (g, c, s') \<and> c = AwaitSpeech 0 \<and> phase s' = DEBATING \<and> error s' = None \<and>
     summary s' = None \<and> comparison s' = None \<and>
     ConsoleError ''Failed to generate post-debate analysis:'' \<in> set (trace s')"
proof -
  let ?s = "initial_state\<lparr>question := ''Should AI have rights?''\<rparr>"
  have h1: "\<not> list_all is_js_space (question ?s)"
    by (simp add: is_js_space_def)
  have h2: "getDebateSides demo_env (question ?s) = Inr (''AI should have rights'', ''AI should not have rights'')"
    by (simp add: demo_env_def)
  have h3: "\<exists>stream. generateDebateTurnStream demo_env h p side stage (question ?s) = Inr stream \<and>
       failure stream = None" for h p side stage
    by (simp add: demo_env_def)
  have h4: "newAudioContext demo_env = None" by (simp add: demo_env_def)
  have cmp: "generateArgumentComparison demo_env h =
      Inl (Error ''Could not generate the argument comparison table.'')" for h
    by (simp add: demo_env_def)
  have smy: "generateDebateSummary demo_env h =
      Inr \<lparr>logosSummary = [''l1'', ''l2'', ''l3''], pathosSummary = [''p1'', ''p2'', ''p3'']\<rparr>" for h
    by (simp add: demo_env_def)
  from analysis_all_or_nothing [OF h1 h2 h3 h4] obtain g c s' where
    "handleStartDebate demo_env ?s = (g, c, s')" "c = AwaitSpeech 0" "phase s' = DEBATING"
    "error s' = None"
    "summary s' = None \<and> comparison s' = None \<and>
       ConsoleError ''Failed to generate post-debate analysis:'' \<in> set (trace s')"
    unfolding cmp smy by auto
  then show ?thesis by blast
qed

subsection \<open>When the audio request is rejected\<close>

lemma returned_step:
  "\<exists>s'. step e g off ev (Returned, s) = (Returned, s') \<and> requests (trace s') = requests (trace s)"
  by (cases ev)
     (simp_all add: handleSkip_def handleSkipToVoting_def resolveInterrupt_def stopCurrentSource_def
        log_action_def sourceEnded_def backgroundDecoded_def startSource_def Let_def requests_def)

lemma returned_playback:
  "\<exists>s'. playback e g off evs (Returned, s) = (Returned, s') \<and>
        requests (trace s') = requests (trace s)"
proof (induction evs arbitrary: s)
  case Nil
  show ?case by (simp add: playback_Nil)
next
  case (Cons ev evs)
  from returned_step [of e g off ev s] obtain s1 where
    s1: "step e g off ev (Returned, s) = (Returned, s1)" "requests (trace s1) = requests (trace s)"
    by blast
  from Cons [of s1] s1 show ?case by (auto simp: playback_Cons)
qed

lemma speech_rejected:
  assumes "\<not> isSkippedRef s"
  shows "step e g off (Settle (Inl err)) (AwaitSpeech i, s) =
           (Returned,
            s\<lparr>trace := trace s @ [ConsoleError ''Error during audio generation:''],
              error := Some ''Failed to generate audio for a turn.'',
              skipTrigger := False, speakingMessageIndex := None, statusText := [],
              phase := VOTING\<rparr>)"
  using assms by (simp add: afterSpeech_def loopExit_def Let_def log_action_def)

text \<open>
  C2, as stated, fails. In the scenario the first audio request is rejected and nobody
  has clicked anything; the phase is VOTING afterwards.
\<close>

theorem audio_rejection_advances_to_voting:
  "\<not> isSkippedRef (snd (snd demo_start)) \<and>
   fst (snd demo_start) = AwaitSpeech 0 \<and>
   phase (snd (step demo_env (fst demo_start) 3
     (Settle (Inl (Error ''Failed to generate audio for the debate.''))) (snd demo_start))) = VOTING"
proof -
  from demo_start_facts obtain g s4 where
    st: "demo_start = (g, loopHead g 3 0 s4)" and len: "length g = 6"
    and s4: "\<not> isSkippedRef s4"
    by blast
  from len have "0 < length g" by simp
  from loopHead_begin [OF this s4, of 3] obtain s' where
    s': "loopHead g 3 0 s4 = (AwaitSpeech 0, s')" "\<not> isSkippedRef s'"
    by blast
  show ?thesis
    unfolding st using s' speech_rejected [OF s'(2), of demo_env g 3] by simp
qed

text \<open>
  C2, amended. When the audio request of a turn is rejected and no skip to voting has
  been signalled, the loop is left at once: the rejection is logged, the error
  "Failed to generate audio for a turn." is set for display, and the code after the loop
  advances the phase to VOTING, where the message is shown. The transcript and the
  analysis stay as they were, and the loop issues no further request.
\<close>

theorem audio_rejection_aborts_playback:
  assumes "\<not> isSkippedRef s"
  shows "step e g off (Settle (Inl err)) (AwaitSpeech i, s) =
           (Returned,
            s\<lparr>trace := trace s @ [ConsoleError ''Error during audio generation:''],
              error := Some ''Failed to generate audio for a turn.'',
              skipTrigger := False, speakingMessageIndex := None, statusText := [],
              phase := VOTING\<rparr>) \<and>
         (\<forall>evs.
            fst (playback e g off evs (step e g off (Settle (Inl err)) (AwaitSpeech i, s))) = Returned \<and>
            requests (trace (snd (playback e g off evs
              (step e g off (Settle (Inl err)) (AwaitSpeech i, s))))) = requests (trace s))"
proof -
  let ?s' = "s\<lparr>trace := trace s @ [ConsoleError ''Error during audio generation:''],
              error := Some ''Failed to generate audio for a turn.'',
              skipTrigger := False, speakingMessageIndex := None, statusText := [],
              phase := VOTING\<rparr>"
  have st: "step e g off (Settle (Inl err)) (AwaitSpeech i, s) = (Returned, ?s')"
    by (rule speech_rejected [OF assms])
  have "fst (playback e g off evs (Returned, ?s')) = Returned \<and>
        requests (trace (snd (playback e g off evs (Returned, ?s')))) = requests (trace s)" for evs
    using returned_playback [of e g off evs ?s'] by (auto simp: requests_def)
  with st show ?thesis by simp
qed

theorem audio_rejection_aborts_playback_witness:
  "fst (step demo_env (fst demo_start) 3 (Settle (Inl (Error ''Failed to generate audio for the debate.'')))
          (AwaitSpeech 0, snd (snd demo_start))) = Returned \<and>
   error (snd (step demo_env (fst demo_start) 3 (Settle (Inl (Error ''Failed to generate audio for the debate.'')))
          (AwaitSpeech 0, snd (snd demo_start)))) = Some ''Failed to generate audio for a turn.'' \<and>
   phase (snd (step demo_env (fst demo_start) 3 (Settle (Inl (Error ''Failed to generate audio for the debate.'')))
          (AwaitSpeech 0, snd (snd demo_start)))) = VOTING"
proof -
  from demo_start_facts obtain g s4 where
    st: "demo_start = (g, loopHead g 3 0 s4)" and len: "length g = 6"
    and s4: "\<not> isSkippedRef s4"
    by blast
  from len have "0 < length g" by simp
  from loopHead_begin [OF this s4, of 3] obtain s' where
    s': "loopHead g 3 0 s4 = (AwaitSpeech 0, s')" "\<not> isSkippedRef s'"
    by blast
  have "\<not> isSkippedRef (snd (snd demo_start))" unfolding st using s' by simp
  from audio_rejection_aborts_playback [OF this] show ?thesis by simp
qed

theorem skip_to_voting_sticky_witness:
  "fst (step demo_env (fst demo_start) 3 ClickSkipToVoting (snd demo_start)) = Returned \<and>
   isSkippedRef (snd (step demo_env (fst demo_start) 3 ClickSkipToVoting (snd demo_start))) \<and>
   phase (snd (step demo_env (fst demo_start) 3 ClickSkipToVoting (snd demo_start))) = VOTING \<and>
   starts (trace (snd (playback demo_env (fst demo_start) 3
       [Settle (Inr (Str ''UklGRiQAAABXQVZF'')), BackgroundDecoded, ClickSkip, ClickSkipToVoting]
       (step demo_env (fst demo_start) 3 ClickSkipToVoting (snd demo_start))))) =
     starts (trace (snd (snd demo_start)))"
proof -
  from demo_start_facts obtain g s4 where
    st: "demo_start = (g, loopHead g 3 0 s4)" and len: "length g = 6"
    and s4: "\<not> isSkippedRef s4"
    by blast
  from len have "0 < length g" by simp
  from loopHead_begin [OF this s4, of 3] obtain s' where
    s': "loopHead g 3 0 s4 = (AwaitSpeech 0, s')" "\<not> isSkippedRef s'"
    by blast
  have ns: "\<not> isSkippedRef (snd (snd demo_start))" unfolding st using s' by simp
  have reach: "snd demo_start = playback demo_env (fst demo_start) 3 [] (loopHead (fst demo_start) 3 0 s4)"
    unfolding st by (simp add: playback_Nil)
  from skip_to_voting_sticky [OF reach] ns show ?thesis by simp
qed

subsection \<open>Skipping a turn while its audio is pending\<close>

text \<open>How often \<open>playAudio\<close> has been called for turn \<open>j\<close>.\<close>

definition plays :: "nat \<Rightarrow> action list \<Rightarrow> nat" where
  "plays j tr = count_list tr (CallPlayAudio j)"

text \<open>Whether the loop, suspended at a control point, can still reach playback of turn \<open>j\<close>.\<close>

fun may_play :: "pc \<Rightarrow> nat \<Rightarrow> bool" where
  "may_play (AwaitSpeech k) j = (k \<le> j)"
| "may_play (AwaitDecode k) j = (k < j)"
| "may_play (AwaitSound k) j = (k < j)"
| "may_play Returned j = False"

lemma plays_snoc:
  "plays j (tr @ [a]) = (if a = CallPlayAudio j then Suc (plays j tr) else plays j tr)"
  by (simp add: plays_def)

lemma loopExit_plays:
  "fst (loopExit s) = Returned" "plays j (trace (snd (loopExit s))) = plays j (trace s)"
  by (simp_all add: loopExit_def Let_def)

lemma loopHead_plays:
  "may_play (fst (loopHead g off k s)) j \<Longrightarrow> k \<le> j"
  "plays j (trace (snd (loopHead g off k s))) = plays j (trace s)"
  by (auto simp: loopHead_def Let_def loopExit_plays log_action_def plays_snoc split: if_splits)

lemma afterPlayback_plays:
  "may_play (fst (afterPlayback g off k r s)) j \<Longrightarrow> k < j"
  "plays j (trace (snd (afterPlayback g off k r s))) = plays j (trace s)"
proof -
  show "may_play (fst (afterPlayback g off k r s)) j \<Longrightarrow> k < j"
    using loopHead_plays(1) [of g off "k + 1" s j]
    by (cases r) (auto simp: afterPlayback_def loopExit_plays split: if_splits)
  show "plays j (trace (snd (afterPlayback g off k r s))) = plays j (trace s)"
    by (cases r) (simp_all add: afterPlayback_def loopExit_plays loopHead_plays log_action_def plays_snoc)
qed

lemma startPlayback_plays:
  "may_play (fst (startPlayback e g off k d s)) j \<Longrightarrow> k < j"
  "j \<noteq> k \<Longrightarrow> plays j (trace (snd (startPlayback e g off k d s))) = plays j (trace s)"
proof -
  show "may_play (fst (startPlayback e g off k d s)) j \<Longrightarrow> k < j"
    by (auto simp: startPlayback_def Let_def split: if_splits option.splits
        dest: afterPlayback_plays(1))
  show "j \<noteq> k \<Longrightarrow> plays j (trace (snd (startPlayback e g off k d s))) = plays j (trace s)"
    by (simp add: startPlayback_def Let_def afterPlayback_plays split: option.splits)
       (simp add: log_action_def plays_snoc catchStart_def)
qed

lemma afterSpeech_plays:
  "may_play (fst (afterSpeech e g off k r s)) j \<Longrightarrow> k < j"
  "j \<noteq> k \<Longrightarrow> plays j (trace (snd (afterSpeech e g off k r s))) = plays j (trace s)"
proof -
  show "may_play (fst (afterSpeech e g off k r s)) j \<Longrightarrow> k < j"
    using loopHead_plays(1) [of g off "k + 1" s j]
    by (cases r)
       (auto simp: afterSpeech_def loopExit_plays split: if_splits js_value.splits
          dest: startPlayback_plays(1))
  show "j \<noteq> k \<Longrightarrow> plays j (trace (snd (afterSpeech e g off k r s))) = plays j (trace s)"
    by (cases r)
       (simp_all add: afterSpeech_def loopExit_plays loopHead_plays startPlayback_plays
          log_action_def plays_snoc split: js_value.splits)
qed

lemma handler_plays:
  "plays j (trace (handleSkip s)) = plays j (trace s)"
  "plays j (trace (handleSkipToVoting s)) = plays j (trace s)"
  "plays j (trace (sourceEnded s)) = plays j (trace s)"
  "plays j (trace (backgroundDecoded s)) = plays j (trace s)"
  "plays j (trace (startSource s)) = plays j (trace s)"
  "plays j (trace (abandonDecode s)) = plays j (trace s)"
  by (simp_all add: handleSkip_def handleSkipToVoting_def resolveInterrupt_def stopCurrentSource_def
      sourceEnded_def backgroundDecoded_def startSource_def abandonDecode_def log_action_def
      plays_snoc Let_def)

lemma afterClick_may_play:
  "may_play (fst (afterClick resume here s)) j \<Longrightarrow>
   (\<exists>r s'. may_play (fst (resume r s')) j) \<or> may_play here j"
  by (auto simp: afterClick_def split: option.splits)

lemma afterClick_trace:
  assumes "\<And>r s'. plays j (trace (snd (resume r s'))) = plays j (trace s')"
  shows "plays j (trace (snd (afterClick resume here s))) = plays j (trace s)"
  using assms by (simp add: afterClick_def split: option.splits)

lemma step_may_play:
  assumes "may_play (fst (step e g off ev (c, s))) j"
  shows "may_play c j"
proof (cases c)
  case Returned
  with assms show ?thesis by (cases ev) simp_all
next
  case (AwaitSpeech k)
  show ?thesis
  proof (cases ev)
    case (Settle r)
    with assms AwaitSpeech show ?thesis by (auto dest: afterSpeech_plays(1))
  next
    case ClickSkip
    with assms AwaitSpeech show ?thesis
      by (auto dest!: afterClick_may_play dest: afterSpeech_plays(1))
  next
    case ClickSkipToVoting
    with assms AwaitSpeech show ?thesis
      by (auto dest!: afterClick_may_play dest: afterSpeech_plays(1))
  qed (use assms AwaitSpeech in simp_all)
next
  case (AwaitDecode k)
  show ?thesis
  proof (cases ev)
    case (Settle r)
    with assms AwaitDecode show ?thesis
      by (cases r) (auto dest: afterPlayback_plays(1) split: if_splits)
  next
    case ClickSkip
    with assms AwaitDecode show ?thesis
      by (auto dest!: afterClick_may_play dest: afterPlayback_plays(1))
  next
    case ClickSkipToVoting
    with assms AwaitDecode show ?thesis
      by (auto dest!: afterClick_may_play dest: afterPlayback_plays(1))
  qed (use assms AwaitDecode in simp_all)
next
  case (AwaitSound k)
  show ?thesis
  proof (cases ev)
    case Ended
    with assms AwaitSound show ?thesis by (auto dest: afterPlayback_plays(1))
  next
    case ClickSkip
    with assms AwaitSound show ?thesis
      by (auto dest!: afterClick_may_play dest: afterPlayback_plays(1))
  next
    case ClickSkipToVoting
    with assms AwaitSound show ?thesis
      by (auto dest!: afterClick_may_play dest: afterPlayback_plays(1))
  qed (use assms AwaitSound in simp_all)
qed


lemma step_plays_other:
  assumes "c \<noteq> AwaitSpeech j"
  shows "plays j (trace (snd (step e g off ev (c, s)))) = plays j (trace s)"
proof (cases c)
  case Returned
  then show ?thesis by (cases ev) (simp_all add: handler_plays)
next
  case (AwaitSpeech k)
  with assms have "j \<noteq> k" by simp
  with AwaitSpeech show ?thesis
    by (cases ev) (simp_all add: afterSpeech_plays afterClick_trace handler_plays)
next
  case (AwaitDecode k)
  show ?thesis
  proof (cases ev)
    case (Settle r)
    with AwaitDecode show ?thesis
      by (cases r) (simp_all add: afterPlayback_plays handler_plays)
  qed (use AwaitDecode in \<open>simp_all add: afterPlayback_plays afterClick_trace handler_plays\<close>)
next
  case (AwaitSound k)
  then show ?thesis
    by (cases ev) (simp_all add: afterPlayback_plays afterClick_trace handler_plays)
qed

lemma step_plays_pending:
  assumes "may_play (fst (step e g off ev (c, s))) j"
  shows "plays j (trace (snd (step e g off ev (c, s)))) = plays j (trace s)"
proof (cases "c = AwaitSpeech j")
  case False
  then show ?thesis by (rule step_plays_other)
next
  case True
  show ?thesis
  proof (cases ev)
    case (Settle r)
    with assms True show ?thesis by (auto dest: afterSpeech_plays(1))
  next
    case ClickSkip
    with assms True show ?thesis
      by (auto simp: afterClick_def handler_plays split: option.splits dest: afterSpeech_plays(1))
  next
    case ClickSkipToVoting
    with assms True show ?thesis
      by (auto simp: afterClick_def handler_plays split: option.splits dest: afterSpeech_plays(1))
  qed (use True in \<open>simp_all add: handler_plays\<close>)
qed

lemma reach_unplayed:
  "playback e g off pre (loopHead g off 0 s0) = (c, s) \<Longrightarrow> may_play c j \<Longrightarrow>
   plays j (trace s) = plays j (trace s0)"
proof (induction pre arbitrary: c s rule: rev_induct)
  case Nil
  then show ?case
    using loopHead_plays(2) [of j g off 0 s0] by (simp add: playback_Nil)
next
  case (snoc ev pre)
  obtain c1 s1 where c1: "playback e g off pre (loopHead g off 0 s0) = (c1, s1)"
    by (cases "playback e g off pre (loopHead g off 0 s0)")
  with snoc.prems have st: "step e g off ev (c1, s1) = (c, s)"
    by (simp add: playback_append playback_Cons playback_Nil)
  with snoc.prems have mp: "may_play (fst (step e g off ev (c1, s1))) j" by simp
  from step_may_play [OF mp] have "may_play c1 j" .
  from snoc.IH [OF c1 this] step_plays_pending [OF mp] st show ?case by simp
qed

lemma never_again:
  "\<not> may_play c j \<Longrightarrow>
   \<not> may_play (fst (playback e g off evs (c, s))) j \<and>
   plays j (trace (snd (playback e g off evs (c, s)))) = plays j (trace s)"
proof (induction evs arbitrary: c s)
  case Nil
  then show ?case by (simp add: playback_Nil)
next
  case (Cons ev evs)
  obtain c1 s1 where st: "step e g off ev (c, s) = (c1, s1)"
    by (cases "step e g off ev (c, s)")
  from Cons.prems have "c \<noteq> AwaitSpeech j" by auto
  from step_plays_other [OF this, of e g off ev s] st
  have p: "plays j (trace s1) = plays j (trace s)" by simp
  from Cons.prems step_may_play [of e g off ev c s j] st have "\<not> may_play c1 j" by auto
  from Cons.IH [OF this, of s1] p st show ?case by (simp add: playback_Cons)
qed

text \<open>
  C9. Whenever the loop is waiting for the audio of turn \<open>i\<close>, a click on "skip turn"
  makes it go on with turn \<open>i + 1\<close> (or leave the loop after the last turn): the
  interrupt wins the race, the audio promise of turn \<open>i\<close> is not waited for any longer,
  and \<open>playAudio\<close> is never called for turn \<open>i\<close>, neither before the click nor at any
  time after it.
\<close>

theorem skip_turn_while_pending_audio:
  assumes "playback e g off pre (loopHead g off 0 s0) = (AwaitSpeech i, s)"
  shows "step e g off ClickSkip (AwaitSpeech i, s) = loopHead g off (i + 1) (handleSkip s) \<and>
         fst (step e g off ClickSkip (AwaitSpeech i, s)) =
           (if i + 1 < length g then AwaitSpeech (i + 1) else Returned) \<and>
         plays i (trace s) = plays i (trace s0) \<and>
         (\<forall>evs. plays i (trace (snd (playback e g off evs
                   (step e g off ClickSkip (AwaitSpeech i, s))))) = plays i (trace s0))"
proof -
  have "consistent (playback e g off pre (loopHead g off 0 s0))"
    by (rule consistent_playback) (rule consistent_loopHead)
  with assms have a: "armed s" by simp
  have st: "step e g off ClickSkip (AwaitSpeech i, s) = loopHead g off (i + 1) (handleSkip s)"
    using armed_handleSkip [OF a] by (simp add: afterClick_def afterSpeech_def)
  have ns: "\<not> isSkippedRef (handleSkip s)"
    using a by (simp add: armed_def handleSkip_def resolveInterrupt_def stopCurrentSource_def
        log_action_def)
  have nxt: "fst (loopHead g off (i + 1) (handleSkip s)) =
      (if i + 1 < length g then AwaitSpeech (i + 1) else Returned)"
    using ns by (simp add: loopHead_def Let_def loopExit_def)
  have before: "plays i (trace s) = plays i (trace s0)"
    by (rule reach_unplayed [OF assms]) simp
  have here: "plays i (trace (snd (loopHead g off (i + 1) (handleSkip s)))) = plays i (trace s)"
    by (simp add: loopHead_plays handler_plays)
  have "\<not> may_play (fst (loopHead g off (i + 1) (handleSkip s))) i"
    unfolding nxt by simp
  from never_again [OF this, of e g off _ "snd (loopHead g off (i + 1) (handleSkip s))"]
  have "plays i (trace (snd (playback e g off evs (loopHead g off (i + 1) (handleSkip s))))) =
        plays i (trace s0)" for evs
    using here before by simp
  with st nxt before show ?thesis by simp
qed

theorem skip_turn_while_pending_audio_witness:
  "fst (step demo_env (fst demo_start) 3 ClickSkip (snd demo_start)) = AwaitSpeech 1 \<and>
   plays 0 (trace (snd (playback demo_env (fst demo_start) 3
       (turn_events ''UklGRiQAAABXQVZF'' @ [Ended, BackgroundDecoded])
       (step demo_env (fst demo_start) 3 ClickSkip (snd demo_start))))) =
     plays 0 (trace (snd (snd demo_start)))"
proof -
  from demo_start_facts obtain g s4 where
    st: "demo_start = (g, loopHead g 3 0 s4)" and len: "length g = 6"
    and s4: "\<not> isSkippedRef s4"
    by blast
  from len have "0 < length g" by simp
  from loopHead_begin [OF this s4, of 3] obtain s' where
    s': "loopHead g 3 0 s4 = (AwaitSpeech 0, s')"
    by blast
  have reach: "playback demo_env g 3 [] (loopHead g 3 0 s4) = (AwaitSpeech 0, s')"
    using s' by (simp add: playback_Nil)
  from skip_turn_while_pending_audio [OF reach] have
    nxt: "fst (step demo_env g 3 ClickSkip (AwaitSpeech 0, s')) =
            (if 0 + 1 < length g then AwaitSpeech (0 + 1) else Returned)"
    and before: "plays 0 (trace s') = plays 0 (trace s4)"
    and after: "\<forall>evs. plays 0 (trace (snd (playback demo_env g 3 evs
                   (step demo_env g 3 ClickSkip (AwaitSpeech 0, s'))))) = plays 0 (trace s4)"
    by blast+
  from nxt before after len show ?thesis
    unfolding st s' by simp
qed

section \<open>Properties of the scoring\<close>

subsection \<open>Rounding to the nearest double\<close>

lemmas str_eval = toLowerCase_def toLowerCase_char_def is_upper_def strip_punctuation_def
  is_word_char_def is_js_space_def Let_def

lemma weight_values:
  "rnd (10 / 100) = 3602879701896397 / 36028797018963968"
  "rnd (20 / 100) = 3602879701896397 / 18014398509481984"
  "rnd (15 / 100) = 5404319552844595 / 36028797018963968"
  "rnd (5 / 100) = 3602879701896397 / 72057594037927936"
  by code_simp+

lemma rnd_1024: "rnd 1024 = 1024"
  by code_simp

lemma rne_of_int: "rne (of_int n) = n"
  by (simp add: rne_def)

lemma rne_lower: "\<lfloor>q\<rfloor> \<le> rne q"
  by (simp add: rne_def Let_def)

lemma rne_upper: "rne q \<le> \<lfloor>q\<rfloor> + 1"
  by (simp add: rne_def Let_def)

lemma rne_mono:
  assumes "q \<le> r"
  shows "rne q \<le> rne r"
proof (cases "\<lfloor>q\<rfloor> = \<lfloor>r\<rfloor>")
  case True
  with assms have "q - of_int \<lfloor>q\<rfloor> \<le> r - of_int \<lfloor>r\<rfloor>" by simp
  with True show ?thesis by (auto simp: rne_def Let_def)
next
  case False
  with assms have "\<lfloor>q\<rfloor> < \<lfloor>r\<rfloor>" using floor_mono [of q r] by linarith
  with rne_upper [of q] rne_lower [of r] show ?thesis by linarith
qed

lemma binade_ge1:
  assumes "1 \<le> x"
  shows "2 powi binade x \<le> x \<and> x < 2 powi (binade x + 1)"
proof -
  define n where "n = \<lfloor>x\<rfloor>"
  define b where "b = bitlen n"
  from assms have n: "1 \<le> n" unfolding n_def by simp
  then have "0 < n" by simp
  from bitlen_bounds [OF this] have bb: "2 ^ nat (b - 1) \<le> n" "n < 2 ^ nat b"
    unfolding b_def by simp_all
  from n have b1: "1 \<le> b" unfolding b_def using bitlen_nonneg [of n] bb(2)
    by (cases "b = 0") (auto simp: b_def)
  have bin: "binade x = b - 1" using assms by (simp add: binade_def b_def n_def)
  have p1: "(2::rat) powi (b - 1) = 2 ^ nat (b - 1)" using b1 by (simp add: power_int_def)
  have p2: "(2::rat) powi b = 2 ^ nat b" using b1 by (simp add: power_int_def)
  have "of_int n \<le> x" unfolding n_def by simp
  moreover have "(2::rat) ^ nat (b - 1) \<le> of_int n"
    using bb(1) by (metis of_int_le_iff of_int_numeral of_int_power)
  ultimately have lo: "2 powi (b - 1) \<le> x" unfolding p1 by linarith
  have "x < of_int (n + 1)" unfolding n_def by linarith
  moreover have "n + 1 \<le> 2 ^ nat b" using bb(2) by simp
  then have "(of_int (n + 1) :: rat) \<le> 2 ^ nat b"
    by (metis of_int_le_iff of_int_numeral of_int_power)
  ultimately have hi: "x < 2 powi b" unfolding p2 by linarith
  from lo hi show ?thesis unfolding bin by simp
qed

lemma binade_lt1:
  assumes "0 < x" "x < 1"
  shows "2 powi binade x \<le> x \<and> x < 2 powi (binade x + 1)"
proof -
  define y where "y = 1 / x"
  define m where "m = \<lceil>y\<rceil> - 1"
  define b where "b = bitlen m"
  from assms have y1: "1 < y" unfolding y_def by simp
  then have "2 \<le> \<lceil>y\<rceil>" by linarith
  then have m: "1 \<le> m" unfolding m_def by simp
  have my: "of_int m < y" "y \<le> of_int m + 1" unfolding m_def by linarith+
  from m have "0 < m" by simp
  from bitlen_bounds [OF this] have bb: "2 ^ nat (b - 1) \<le> m" "m < 2 ^ nat b"
    unfolding b_def by simp_all
  from m have b1: "1 \<le> b" unfolding b_def using bitlen_nonneg [of m] bb(2)
    by (cases "b = 0") (auto simp: b_def)
  have bin: "binade x = - b" using assms by (simp add: binade_def b_def m_def y_def)
  have "(2::rat) ^ nat (b - 1) \<le> of_int m"
    using bb(1) by (metis of_int_le_iff of_int_numeral of_int_power)
  with my have ylo: "2 ^ nat (b - 1) < y" by linarith
  have "m + 1 \<le> 2 ^ nat b" using bb(2) by simp
  then have "(of_int (m + 1) :: rat) \<le> 2 ^ nat b"
    by (metis of_int_le_iff of_int_numeral of_int_power)
  with my have yhi: "y \<le> 2 ^ nat b" by simp
  have x: "x = 1 / y" unfolding y_def using assms by simp
  have p1: "(2::rat) powi (- b) = 1 / 2 ^ nat b"
    using b1 by (simp add: power_int_def field_simps)
  have p2: "(2::rat) powi (- b + 1) = 1 / 2 ^ nat (b - 1)"
    using b1 by (simp add: power_int_def field_simps)
  have lo: "2 powi (- b) \<le> x" unfolding p1 x using yhi y1 by (simp add: frac_le)
  have hi: "x < 2 powi (- b + 1)" unfolding p2 x using ylo by (simp add: frac_less2)
  from lo hi show ?thesis unfolding bin by simp
qed

lemma binade_bounds:
  assumes "0 < x"
  shows "2 powi binade x \<le> x \<and> x < 2 powi (binade x + 1)"
  using binade_ge1 [of x] binade_lt1 [of x] assms by (cases "1 \<le> x") auto

lemma powi2_less_imp:
  assumes "(2::rat) powi a < 2 powi b"
  shows "a < b"
proof (rule ccontr)
  assume "\<not> a < b"
  then have "b \<le> a" by simp
  then have "(2::rat) powi b \<le> 2 powi a" by (rule power_int_increasing) simp
  with assms show False by simp
qed

lemma binade_mono:
  assumes "0 < x" "x \<le> y"
  shows "binade x \<le> binade y"
proof -
  from assms have "0 < y" by simp
  from binade_bounds [OF assms(1)] binade_bounds [OF this] assms(2)
  have "(2::rat) powi binade x < 2 powi (binade y + 1)" by linarith
  from powi2_less_imp [OF this] show ?thesis by simp
qed

lemma ulp_pos: "0 < ulp x"
  by (simp add: ulp_def zero_less_power_int)

lemma ulp_scale: "ulp x * 2 ^ 52 = 2 powi (max (binade \<bar>x\<bar>) (- 1022))"
proof -
  have "(2::rat) powi (max (binade \<bar>x\<bar>) (- 1022) - 52) =
        2 powi (max (binade \<bar>x\<bar>) (- 1022)) / 2 powi 52"
    by (rule power_int_diff) simp
  moreover have "(2::rat) powi 52 = 2 ^ 52" by (simp add: power_int_def)
  ultimately show ?thesis by (simp add: ulp_def)
qed

lemma ulp_scale': "ulp x * 2 ^ 53 = 2 powi (max (binade \<bar>x\<bar>) (- 1022) + 1)"
proof -
  have "(2::rat) powi (max (binade \<bar>x\<bar>) (- 1022) + 1) = 2 powi (max (binade \<bar>x\<bar>) (- 1022)) * 2"
    by (rule power_int_add_1) simp
  with ulp_scale [of x] show ?thesis by simp
qed

lemma rnd_upper:
  assumes "0 < x"
  shows "rnd x \<le> 2 powi (max (binade x) (- 1022) + 1)"
proof -
  from assms have ax: "\<bar>x\<bar> = x" by simp
  have "x < 2 powi (binade x + 1)" using binade_bounds [OF assms] by simp
  also have "\<dots> \<le> 2 powi (max (binade x) (- 1022) + 1)"
    by (rule power_int_increasing) simp_all
  finally have "x \<le> ulp x * 2 ^ 53" using ulp_scale' [of x] ax by simp
  then have "x / ulp x \<le> of_int (2 ^ 53)" using ulp_pos [of x] by (simp add: field_simps)
  from rne_mono [OF this] have "rne (x / ulp x) \<le> 2 ^ 53" by (simp only: rne_of_int)
  then have "(of_int (rne (x / ulp x)) :: rat) \<le> of_int (2 ^ 53)" by (simp only: of_int_le_iff)
  then have "of_int (rne (x / ulp x)) * ulp x \<le> 2 ^ 53 * ulp x"
    using ulp_pos [of x] by simp
  with ulp_scale' [of x] ax assms show ?thesis by (simp add: rnd_def mult.commute)
qed

lemma rnd_lower:
  assumes "0 < x" "- 1022 < binade x"
  shows "2 powi (binade x) \<le> rnd x"
proof -
  from assms have ax: "\<bar>x\<bar> = x" by simp
  from assms have mx: "max (binade x) (- 1022) = binade x" by simp
  have "ulp x * 2 ^ 52 \<le> x" using binade_bounds [OF assms(1)] ulp_scale [of x] ax mx by simp
  then have "of_int (2 ^ 52) \<le> x / ulp x" using ulp_pos [of x] by (simp add: field_simps)
  from rne_mono [OF this] have "2 ^ 52 \<le> rne (x / ulp x)" by (simp only: rne_of_int)
  then have "(of_int (2 ^ 52) :: rat) \<le> of_int (rne (x / ulp x))" by (simp only: of_int_le_iff)
  then have "2 ^ 52 * ulp x \<le> of_int (rne (x / ulp x)) * ulp x"
    using ulp_pos [of x] by simp
  with ulp_scale [of x] ax mx assms show ?thesis by (simp add: rnd_def mult.commute)
qed

lemma rnd_nonneg:
  assumes "0 \<le> x"
  shows "0 \<le> rnd x"
proof -
  from assms ulp_pos [of x] have "0 \<le> x / ulp x" by simp
  then have "0 \<le> \<lfloor>x / ulp x\<rfloor>" by simp
  with rne_lower [of "x / ulp x"] have "0 \<le> rne (x / ulp x)" by linarith
  with ulp_pos [of x] show ?thesis by (simp add: rnd_def)
qed

lemma rnd_mono_pos:
  assumes "0 < x" "x \<le> y"
  shows "rnd x \<le> rnd y"
proof -
  from assms have y: "0 < y" by simp
  from assms y have ax: "\<bar>x\<bar> = x" "\<bar>y\<bar> = y" by simp_all
  let ?ex = "max (binade x) (- 1022)"
  let ?ey = "max (binade y) (- 1022)"
  from binade_mono [OF assms] have le: "?ex \<le> ?ey" by linarith
  show ?thesis
  proof (cases "?ex = ?ey")
    case True
    then have u: "ulp x = ulp y" by (simp add: ulp_def ax)
    from assms(2) ulp_pos [of y] have "x / ulp y \<le> y / ulp y" by (simp add: divide_right_mono)
    from rne_mono [OF this] have "(of_int (rne (x / ulp y)) :: rat) \<le> of_int (rne (y / ulp y))"
      by simp
    then have "of_int (rne (x / ulp y)) * ulp y \<le> of_int (rne (y / ulp y)) * ulp y"
      using ulp_pos [of y] by simp
    with u assms y show ?thesis by (simp add: rnd_def)
  next
    case False
    with le have lt: "?ex < ?ey" by linarith
    then have by1: "- 1022 < binade y" by linarith
    then have ey: "?ey = binade y" by linarith
    from lt have "?ex + 1 \<le> ?ey" by linarith
    then have "(2::rat) powi (?ex + 1) \<le> 2 powi ?ey" by (rule power_int_increasing) simp
    with rnd_upper [OF assms(1)] rnd_lower [OF y by1] ey show ?thesis by simp
  qed
qed

lemma rnd_0: "rnd 0 = 0"
  by (simp add: rnd_def)

lemma rnd_mono:
  assumes "0 \<le> x" "x \<le> y"
  shows "rnd x \<le> rnd y"
proof (cases "x = 0")
  case True
  with assms rnd_nonneg [of y] show ?thesis by (simp add: rnd_0)
next
  case False
  with assms have "0 < x" by simp
  from rnd_mono_pos [OF this assms(2)] show ?thesis .
qed

lemma round64_small:
  assumes "0 \<le> x" "x \<le> 1024"
  shows "round64 x = Finite (rnd x)"
proof -
  from rnd_mono [OF assms] have "rnd x \<le> 1024" by (simp only: rnd_1024)
  also have "(1024::rat) < 2 ^ 1024" by simp
  finally have hi: "\<not> 2 ^ 1024 \<le> rnd x" by simp
  have "- (2 ^ 1024) < (0::rat)" by simp
  also note rnd_nonneg [OF assms(1)]
  finally have lo: "\<not> rnd x \<le> - (2 ^ 1024)" by simp
  from hi lo show ?thesis by (simp add: round64_def Let_def)
qed

subsection \<open>The loop of \<open>calculateFinalScore\<close>\<close>

lemma weight_doubles:
  "round64 (10 / 100) = Finite (3602879701896397 / 36028797018963968)"
  "round64 (20 / 100) = Finite (3602879701896397 / 18014398509481984)"
  "round64 (15 / 100) = Finite (5404319552844595 / 36028797018963968)"
  "round64 (5 / 100) = Finite (3602879701896397 / 72057594037927936)"
proof -
  have "round64 (10 / 100) = Finite (rnd (10 / 100))" by (rule round64_small) simp_all
  then show "round64 (10 / 100) = Finite (3602879701896397 / 36028797018963968)"
    by (simp only: weight_values)
  have "round64 (20 / 100) = Finite (rnd (20 / 100))" by (rule round64_small) simp_all
  then show "round64 (20 / 100) = Finite (3602879701896397 / 18014398509481984)"
    by (simp only: weight_values)
  have "round64 (15 / 100) = Finite (rnd (15 / 100))" by (rule round64_small) simp_all
  then show "round64 (15 / 100) = Finite (5404319552844595 / 36028797018963968)"
    by (simp only: weight_values)
  have "round64 (5 / 100) = Finite (rnd (5 / 100))" by (rule round64_small) simp_all
  then show "round64 (5 / 100) = Finite (3602879701896397 / 72057594037927936)"
    by (simp only: weight_values)
qed

lemma scoreWeights_values:
  "scoreWeights =
     [(''Positioning'', Finite (3602879701896397 / 36028797018963968)),
      (''Argument'', Finite (3602879701896397 / 18014398509481984)),
      (''Evidence'', Finite (3602879701896397 / 18014398509481984)),
      (''Refutation'', Finite (5404319552844595 / 36028797018963968)),
      (''Coverage'', Finite (3602879701896397 / 36028797018963968)),
      (''Ethics'', Finite (3602879701896397 / 36028797018963968)),
      (''Clarity'', Finite (3602879701896397 / 36028797018963968)),
      (''Tone'', Finite (3602879701896397 / 72057594037927936))]"
  unfolding scoreWeights_def weight_doubles by (rule refl)

lemma find_lowered:
  assumes "distinct (map fst t)"
  shows "map_of (map (\<lambda>kw. (f (fst kw), snd kw)) t) n =
           (case List.find (\<lambda>k. f k = n) (map fst t) of None \<Rightarrow> None | Some k \<Rightarrow> map_of t k)"
  using assms
proof (induction t)
  case Nil
  show ?case by simp
next
  case (Cons kw t)
  obtain k w where kw: "kw = (k, w)" by (cases kw)
  show ?case
  proof (cases "f k = n")
    case True
    then show ?thesis by (simp add: kw)
  next
    case False
    from Cons have IH: "map_of (map (\<lambda>kw. (f (fst kw), snd kw)) t) n =
           (case List.find (\<lambda>k. f k = n) (map fst t) of None \<Rightarrow> None | Some k \<Rightarrow> map_of t k)"
      by simp
    show ?thesis
    proof (cases "List.find (\<lambda>k. f k = n) (map fst t)")
      case None
      with False IH show ?thesis by (simp add: kw)
    next
      case (Some k')
      then have "k' \<in> set (map fst t)" by (auto simp: find_Some_iff)
      with Cons.prems have "k' \<noteq> k" by (auto simp: kw)
      with False IH Some show ?thesis by (simp add: kw)
    qed
  qed
qed

lemma distinct_keys: "distinct (map fst scoreWeights)"
  by (simp add: scoreWeights_def)

lemma weights_truthy:
  assumes "map_of scoreWeights k = Some w"
  shows "k \<noteq> [] \<and> truthy_number w \<and> (\<exists>x. w = Finite x \<and> 0 < x \<and> x \<le> 1)"
proof -
  from assms have "(k, w) \<in> set scoreWeights" by (rule map_of_SomeD)
  then show ?thesis unfolding scoreWeights_values by (auto simp: truthy_number_def)
qed

lemma findKey_key:
  assumes "findKey c = Some k"
  shows "k \<in> set (map fst scoreWeights)"
  using assms by (auto simp: findKey_def find_Some_iff)

lemma findKey_in_keys:
  assumes "findKey c = Some k"
  shows "\<exists>w. map_of scoreWeights k = Some w"
proof -
  from findKey_key [OF assms] have "k \<in> dom (map_of scoreWeights)"
    by (simp add: dom_map_of_conv_image_fst)
  then show ?thesis by blast
qed

lemma matched_weight:
  "map_of (map (\<lambda>kw. (toLowerCase (fst kw), snd kw)) scoreWeights)
      (strip_punctuation (toLowerCase c)) =
   (case findKey c of None \<Rightarrow> None | Some k \<Rightarrow> map_of scoreWeights k)"
  unfolding findKey_def by (rule find_lowered [OF distinct_keys])

lemma addScore_contribution:
  "addScore tot s = foldl fadd tot (contribution s)"
proof (cases "findKey (criteria s)")
  case None
  then show ?thesis by (simp add: addScore_def contribution_def matched_weight)
next
  case (Some k)
  from findKey_in_keys [OF this] obtain w where w: "map_of scoreWeights k = Some w" by blast
  from weights_truthy [OF this] Some w show ?thesis
    by (simp add: addScore_def contribution_def matched_weight)
qed

lemma foldl_addScore:
  "foldl addScore tot scores = foldl fadd tot (concat (map contribution scores))"
  by (induction scores arbitrary: tot) (simp_all add: addScore_contribution)

lemma calculateFinalScore_contributions:
  "calculateFinalScore scores =
     toFixed2 (foldl fadd (Finite 0) (concat (map contribution scores)))"
  by (simp add: calculateFinalScore_def foldl_addScore)

subsection \<open>Sums of full marks\<close>

lemma full_marks_products:
  "rnd (5 * (3602879701896397 / 36028797018963968)) = 1 / 2"
  "rnd (5 * (3602879701896397 / 18014398509481984)) = 1"
  "rnd (5 * (5404319552844595 / 36028797018963968)) = 3 / 4"
  "rnd (5 * (3602879701896397 / 72057594037927936)) = 1 / 4"
  by code_simp+

lemma full_marks_values:
  "map full_marks (map fst scoreWeights) = [1 / 2, 1, 1, 3 / 4, 1 / 2, 1 / 2, 1 / 2, 1 / 4]"
proof -
  have "map full_marks (map fst scoreWeights) =
      [rnd (5 * (3602879701896397 / 36028797018963968)),
       rnd (5 * (3602879701896397 / 18014398509481984)),
       rnd (5 * (3602879701896397 / 18014398509481984)),
       rnd (5 * (5404319552844595 / 36028797018963968)),
       rnd (5 * (3602879701896397 / 36028797018963968)),
       rnd (5 * (3602879701896397 / 36028797018963968)),
       rnd (5 * (3602879701896397 / 36028797018963968)),
       rnd (5 * (3602879701896397 / 72057594037927936))]"
    unfolding scoreWeights_values full_marks_def
    by (simp only: list.map fst_conv snd_conv map_of.simps fun_upd_apply option.case number.case
        list.inject char.inject simp_thms if_True if_False refl)
  then show ?thesis by (simp only: full_marks_products)
qed

lemma quarters_exact_list: "list_all (\<lambda>m. rnd (of_int m / 4) = of_int m / 4) [0..20]"
  by code_simp

lemma quarters_exact:
  assumes "0 \<le> m" "m \<le> 20"
  shows "rnd (of_int m / 4) = of_int m / 4"
proof -
  from assms have "m \<in> set [0..20]" by simp
  with quarters_exact_list show ?thesis unfolding list_all_iff by blast
qed

lemma rnd_5: "rnd 5 = 5"
  using quarters_exact [of 20] by simp

lemma full_marks_quarter:
  assumes "k \<in> set (map fst scoreWeights)"
  shows "\<exists>m. 0 \<le> m \<and> full_marks k = of_int m / 4"
proof -
  from assms have "full_marks k \<in> full_marks ` set (map fst scoreWeights)" by (rule imageI)
  then have "full_marks k \<in> set (map full_marks (map fst scoreWeights))" by (simp only: set_map)
  then have "full_marks k \<in> {1 / 2, 1, 3 / 4, 1 / 4}" unfolding full_marks_values by auto
  then consider "full_marks k = 1 / 2" | "full_marks k = 1" | "full_marks k = 3 / 4"
    | "full_marks k = 1 / 4" by blast
  then show ?thesis
  proof cases
    case 1 then show ?thesis by (intro exI [of _ 2]) simp
  next
    case 2 then show ?thesis by (intro exI [of _ 4]) simp
  next
    case 3 then show ?thesis by (intro exI [of _ 3]) simp
  next
    case 4 then show ?thesis by (intro exI [of _ 1]) simp
  qed
qed

lemma full_marks_sum_quarter:
  assumes "set ks \<subseteq> set (map fst scoreWeights)"
  shows "\<exists>m. 0 \<le> m \<and> sum_list (map full_marks ks) = of_int m / 4"
  using assms
proof (induction ks)
  case Nil
  show ?case by (intro exI [of _ 0]) simp
next
  case (Cons k ks)
  then obtain m where m: "0 \<le> m" "sum_list (map full_marks ks) = of_int m / 4" by auto
  from Cons.prems have "k \<in> set (map fst scoreWeights)" by simp
  from full_marks_quarter [OF this] obtain j where j: "0 \<le> j" "full_marks k = of_int j / 4"
    by blast
  show ?case using m j by (intro exI [of _ "j + m"]) (simp add: add_divide_distrib)
qed

lemma full_marks_total: "sum_list (map full_marks (map fst scoreWeights)) = 5"
  unfolding full_marks_values by simp

lemma full_marks_sum_le:
  assumes "distinct ks" "set ks \<subseteq> set (map fst scoreWeights)"
  shows "sum_list (map full_marks ks) \<le> 5"
proof -
  have nn: "0 \<le> full_marks k" if "k \<in> set (map fst scoreWeights)" for k
    using full_marks_quarter [OF that] by auto
  have "sum_list (map full_marks ks) = sum full_marks (set ks)"
    using assms(1) by (rule sum_list_distinct_conv_sum_set)
  also have "\<dots> \<le> sum full_marks (set (map fst scoreWeights))"
    using assms(2) nn by (intro sum_mono2) auto
  also have "\<dots> = sum_list (map full_marks (map fst scoreWeights))"
    using distinct_keys by (rule sum_list_distinct_conv_sum_set [symmetric])
  finally show ?thesis by (simp only: full_marks_total)
qed

lemma full_marks_sum_exact:
  assumes "distinct ks" "set ks \<subseteq> set (map fst scoreWeights)"
  shows "rnd (sum_list (map full_marks ks)) = sum_list (map full_marks ks)"
proof -
  from full_marks_sum_quarter [OF assms(2)] obtain m where
    m: "0 \<le> m" "sum_list (map full_marks ks) = of_int m / 4" by blast
  from full_marks_sum_le [OF assms] m have "m \<le> 20" by simp
  from quarters_exact [OF m(1) this] show ?thesis unfolding m(2) .
qed

subsection \<open>The bound on the final score\<close>

lemma fmul_Finite:
  assumes "0 \<le> x * y" "x * y \<le> 1024"
  shows "fmul (Finite x) (Finite y) = Finite (rnd (x * y))"
  by (simp add: fmul_def round64_small [OF assms])

lemma fadd_Finite:
  assumes "0 \<le> x + y" "x + y \<le> 1024"
  shows "fadd (Finite x) (Finite y) = Finite (rnd (x + y))"
  by (simp add: fadd_def round64_small [OF assms])

lemma addScore_unmatched:
  assumes "findKey (criteria s) = None"
  shows "addScore tot s = tot"
  using assms by (simp add: addScore_def)

lemma addScore_matched:
  assumes "findKey (criteria s) = Some k"
  shows "\<exists>w. map_of scoreWeights k = Some (Finite w) \<and> 0 < w \<and> w \<le> 1 \<and>
           addScore tot s = fadd tot (fmul (score s) (Finite w))"
proof -
  from findKey_in_keys [OF assms] obtain w where w: "map_of scoreWeights k = Some w" by blast
  from weights_truthy [OF this] assms w show ?thesis by (auto simp: addScore_def)
qed

lemma is_between_Finite: "is_between a lo hi = (\<exists>x. a = Finite x \<and> lo \<le> x \<and> x \<le> hi)"
  by (cases a) (simp_all add: is_between_def)

lemma addScore_bound:
  assumes sc: "is_between (score s) 0 5"
    and k: "findKey (criteria s) = Some k"
    and ks: "distinct (ks @ [k])" "set ks \<subseteq> set (map fst scoreWeights)"
    and tot: "is_between tot 0 (sum_list (map full_marks ks))"
  shows "is_between (addScore tot s) 0 (sum_list (map full_marks (ks @ [k])))"
proof -
  from sc obtain y where y: "score s = Finite y" "0 \<le> y" "y \<le> 5"
    unfolding is_between_Finite by blast
  from tot obtain t where t: "tot = Finite t" "0 \<le> t" "t \<le> sum_list (map full_marks ks)"
    unfolding is_between_Finite by blast
  from addScore_matched [OF k] obtain w where
    w: "map_of scoreWeights k = Some (Finite w)" "0 < w" "w \<le> 1"
    and a: "addScore tot s = fadd tot (fmul (score s) (Finite w))"
    by blast
  have fm: "full_marks k = rnd (5 * w)" using w(1) by (simp add: full_marks_def)
  from y w(2) have p0: "0 \<le> y * w" by simp
  from y w(2) have p5: "y * w \<le> 5 * w" by simp
  also from w(3) have "5 * w \<le> 1024" by simp
  finally have p1024: "y * w \<le> 1024" .
  have prod: "fmul (score s) (Finite w) = Finite (rnd (y * w))"
    unfolding y(1) by (rule fmul_Finite [OF p0 p1024])
  from rnd_mono [OF p0 p5] have q1: "rnd (y * w) \<le> full_marks k" by (simp only: fm)
  from rnd_nonneg [OF p0] have q0: "0 \<le> rnd (y * w)" .
  from ks findKey_key [OF k] have sub: "set (ks @ [k]) \<subseteq> set (map fst scoreWeights)" by simp
  from t q0 have s0: "0 \<le> t + rnd (y * w)" by simp
  from t q1 have s1: "t + rnd (y * w) \<le> sum_list (map full_marks (ks @ [k]))" by simp
  also from full_marks_sum_le [OF ks(1) sub] have "\<dots> \<le> 1024" by simp
  finally have s1024: "t + rnd (y * w) \<le> 1024" .
  have "addScore tot s = fadd (Finite t) (Finite (rnd (y * w)))"
    using a unfolding prod t(1) .
  also have "\<dots> = Finite (rnd (t + rnd (y * w)))"
    by (rule fadd_Finite [OF s0 s1024])
  finally have "addScore tot s = Finite (rnd (t + rnd (y * w)))" .
  moreover from rnd_mono [OF s0 s1] full_marks_sum_exact [OF ks(1) sub]
  have "rnd (t + rnd (y * w)) \<le> sum_list (map full_marks (ks @ [k]))" by simp
  moreover from rnd_nonneg [OF s0] have "0 \<le> rnd (t + rnd (y * w))" .
  ultimately show ?thesis unfolding is_between_Finite by blast
qed

lemma foldl_addScore_bound:
  assumes "\<forall>s\<in>set scores. is_between (score s) 0 5"
    and "distinct (ks @ List.map_filter (\<lambda>s. findKey (criteria s)) scores)"
    and "set ks \<subseteq> set (map fst scoreWeights)"
    and "is_between tot 0 (sum_list (map full_marks ks))"
  shows "is_between (foldl addScore tot scores) 0 5"
  using assms
proof (induction scores arbitrary: tot ks)
  case Nil
  from Nil.prems(2) have "distinct ks" by (simp add: List.map_filter_simps)
  from full_marks_sum_le [OF this Nil.prems(3)] Nil.prems(4) show ?case
    unfolding is_between_Finite by auto
next
  case (Cons s scores)
  show ?case
  proof (cases "findKey (criteria s)")
    case None
    with Cons.prems(2) have d: "distinct (ks @ List.map_filter (\<lambda>s. findKey (criteria s)) scores)"
      by (simp add: List.map_filter_simps)
    from Cons.prems(1) have r: "\<forall>s\<in>set scores. is_between (score s) 0 5" by simp
    from Cons.IH [OF r d Cons.prems(3,4)] show ?thesis
      by (simp add: addScore_unmatched [OF None])
  next
    case (Some k)
    with Cons.prems(2) have
      d: "distinct ((ks @ [k]) @ List.map_filter (\<lambda>s. findKey (criteria s)) scores)"
      by (simp add: List.map_filter_simps)
    then have dk: "distinct (ks @ [k])" by simp
    from Cons.prems(1) have r: "\<forall>s\<in>set scores. is_between (score s) 0 5"
      and sc: "is_between (score s) 0 5" by simp_all
    note b = addScore_bound [OF sc Some dk Cons.prems(3,4)]
    from Cons.prems(3) findKey_key [OF Some]
    have sub: "set (ks @ [k]) \<subseteq> set (map fst scoreWeights)" by simp
    from Cons.IH [OF r d sub b] show ?thesis by simp
  qed
qed

lemma toFixed2_bound:
  assumes "is_between a 0 5"
  shows "is_between (toFixed2 a) 0 5"
proof -
  from assms obtain t where a: "a = Finite t" and t: "0 \<le> t" "t \<le> 5"
    unfolding is_between_Finite by blast
  show ?thesis
  proof (cases "t = 0")
    case True
    then show ?thesis by (simp add: a toFixed2_def is_between_def)
  next
    case False
    with t have pos: "0 < t" by simp
    define n where "n = \<lfloor>\<bar>t\<bar> * 100 + 1 / 2\<rfloor>"
    from t have n0: "0 \<le> n" unfolding n_def by simp
    from t have "\<bar>t\<bar> * 100 + 1 / 2 < 501" by simp
    then have "n < 501" unfolding n_def by (simp add: floor_less_iff)
    then have n5: "n \<le> 500" by simp
    from n0 have q0: "(0::rat) \<le> of_int n / 100" by simp
    from n5 have "(of_int n :: rat) \<le> of_int 500" by (simp only: of_int_le_iff)
    then have q5: "(of_int n :: rat) / 100 \<le> 5" by simp
    from rnd_nonneg [OF q0] rnd_mono [OF q0 q5] rnd_5
    have "0 \<le> rnd (of_int n / 100) \<and> rnd (of_int n / 100) \<le> 5" by simp
    moreover from t pos have "toFixed2 a = Finite (rnd (of_int n / 100))"
      by (simp add: a toFixed2_def n_def)
    ultimately show ?thesis by (simp add: is_between_def)
  qed
qed

lemma final_score_bound:
  assumes "\<forall>s\<in>set scores. is_between (score s) 0 5"
    and "distinct (List.map_filter (\<lambda>s. findKey (criteria s)) scores)"
  shows "is_between (calculateFinalScore scores) 0 5"
proof -
  have z: "is_between (Finite 0) 0 (sum_list (map full_marks []))" by (simp add: is_between_def)
  from foldl_addScore_bound [where ks = "[]" and tot = "Finite 0", OF assms(1) _ _ z] assms(2)
  have "is_between (foldl addScore (Finite 0) scores) 0 5" by simp
  then show ?thesis unfolding calculateFinalScore_def by (rule toFixed2_bound)
qed

subsection \<open>Full marks on every criterion, and examples\<close>






lemma example_roundings:
  "rnd (9 / 2 * (5404319552844595 / 36028797018963968)) = 6079859496950169 / 9007199254740992"
  "rnd (4 * (3602879701896397 / 36028797018963968)) = 3602879701896397 / 9007199254740992"
  "rnd (0 + 6079859496950169 / 9007199254740992) = 6079859496950169 / 9007199254740992"
  "rnd (0 + 3602879701896397 / 9007199254740992) = 3602879701896397 / 9007199254740992"
  "rnd (3602879701896397 / 9007199254740992 + 6079859496950169 / 9007199254740992) =
     4841369599423283 / 4503599627370496"
  by code_simp+

lemma example_toFixed2:
  "toFixed2 (Finite 0) = Finite 0"
  "toFixed2 (Finite 5) = Finite 5"
  "toFixed2 (Finite (6079859496950169 / 9007199254740992)) = Finite (rnd (67 / 100))"
  "toFixed2 (Finite (4841369599423283 / 4503599627370496)) = Finite (rnd (107 / 100))"
  "toFixed2 NaN = NaN"
  by code_simp+

lemma example_spec:
  "spec_round2 (5 * (5 / 100)) = 1 / 4"
  "spec_round2 (9 / 2 * (15 / 100)) = 68 / 100"
  "rnd (67 / 100) < 68 / 100"
  by code_simp+

lemma example_operations:
  "fmul (Finite (9 / 2)) (Finite (5404319552844595 / 36028797018963968)) =
     Finite (6079859496950169 / 9007199254740992)"
  "fmul (Finite 4) (Finite (3602879701896397 / 36028797018963968)) =
     Finite (3602879701896397 / 9007199254740992)"
  "fadd (Finite 0) (Finite (6079859496950169 / 9007199254740992)) =
     Finite (6079859496950169 / 9007199254740992)"
  "fadd (Finite 0) (Finite (3602879701896397 / 9007199254740992)) =
     Finite (3602879701896397 / 9007199254740992)"
  "fadd (Finite (3602879701896397 / 9007199254740992)) (Finite (6079859496950169 / 9007199254740992)) =
     Finite (4841369599423283 / 4503599627370496)"
proof -
  have "fmul (Finite (9 / 2)) (Finite (5404319552844595 / 36028797018963968)) =
      Finite (rnd (9 / 2 * (5404319552844595 / 36028797018963968)))"
    by (rule fmul_Finite) simp_all
  then show "fmul (Finite (9 / 2)) (Finite (5404319552844595 / 36028797018963968)) =
     Finite (6079859496950169 / 9007199254740992)" by (simp only: example_roundings)
  have "fmul (Finite 4) (Finite (3602879701896397 / 36028797018963968)) =
      Finite (rnd (4 * (3602879701896397 / 36028797018963968)))"
    by (rule fmul_Finite) simp_all
  then show "fmul (Finite 4) (Finite (3602879701896397 / 36028797018963968)) =
     Finite (3602879701896397 / 9007199254740992)" by (simp only: example_roundings)
  have "fadd (Finite 0) (Finite (6079859496950169 / 9007199254740992)) =
      Finite (rnd (0 + 6079859496950169 / 9007199254740992))"
    by (rule fadd_Finite) simp_all
  then show "fadd (Finite 0) (Finite (6079859496950169 / 9007199254740992)) =
     Finite (6079859496950169 / 9007199254740992)" by (simp only: example_roundings)
  have "fadd (Finite 0) (Finite (3602879701896397 / 9007199254740992)) =
      Finite (rnd (0 + 3602879701896397 / 9007199254740992))"
    by (rule fadd_Finite) simp_all
  then show "fadd (Finite 0) (Finite (3602879701896397 / 9007199254740992)) =
     Finite (3602879701896397 / 9007199254740992)" by (simp only: example_roundings)
  have "fadd (Finite (3602879701896397 / 9007199254740992))
        (Finite (6079859496950169 / 9007199254740992)) =
      Finite (rnd (3602879701896397 / 9007199254740992 + 6079859496950169 / 9007199254740992))"
    by (rule fadd_Finite) simp_all
  then show "fadd (Finite (3602879701896397 / 9007199254740992))
        (Finite (6079859496950169 / 9007199254740992)) =
     Finite (4841369599423283 / 4503599627370496)" by (simp only: example_roundings)
qed

lemma example_infinities:
  "fmul PosInfinity (Finite (3602879701896397 / 72057594037927936)) = PosInfinity"
  "fmul NegInfinity (Finite (3602879701896397 / 36028797018963968)) = NegInfinity"
  "fadd (Finite 0) PosInfinity = PosInfinity"
  "fadd PosInfinity NegInfinity = NaN"
  by (simp_all add: fmul_def fadd_def infinity_of_def sign_of_def)

lemma contribution_underscore:
  "contribution \<lparr>criteria = ''Tone_'', score = x, score_notes = n\<rparr> = []"
  by (simp add: contribution_def scoreWeights_def str_eval)

lemma contribution_refutation:
  "contribution \<lparr>criteria = ''Refutation'', score = x, score_notes = n\<rparr> =
     [fmul x (Finite (5404319552844595 / 36028797018963968))]"
  by (simp add: contribution_def scoreWeights_values str_eval)

lemma contribution_positioning:
  "contribution \<lparr>criteria = ''POSITIONING!!'', score = x, score_notes = n\<rparr> =
     [fmul x (Finite (3602879701896397 / 36028797018963968))]"
  by (simp add: contribution_def scoreWeights_values str_eval)

lemma contribution_positioning_plain:
  "contribution \<lparr>criteria = ''Positioning'', score = x, score_notes = n\<rparr> =
     [fmul x (Finite (3602879701896397 / 36028797018963968))]"
  by (simp add: contribution_def scoreWeights_values str_eval)

lemma contribution_tone:
  "contribution \<lparr>criteria = ''Tone'', score = x, score_notes = n\<rparr> =
     [fmul x (Finite (3602879701896397 / 72057594037927936))]"
  by (simp add: contribution_def scoreWeights_values str_eval)

lemma spec_weight_underscore: "spec_weight ''Tone_'' = 5 / 100"
  by (simp add: spec_weight_def spec_weights_def spec_normalize_def is_alnum_def str_eval)

lemma spec_weight_refutation: "spec_weight ''Refutation'' = 15 / 100"
  by (simp add: spec_weight_def spec_weights_def spec_normalize_def is_alnum_def str_eval)

lemmas example_eval = list.map concat.simps append_Nil2 append_Nil append_Cons foldl.simps
  contribution_underscore contribution_refutation contribution_positioning
  contribution_positioning_plain contribution_tone
  example_operations example_infinities example_toFixed2

lemma final_score_underscore:
  "calculateFinalScore [\<lparr>criteria = ''Tone_'', score = Finite 5, score_notes = []\<rparr>] = Finite 0"
  unfolding calculateFinalScore_contributions by (simp only: example_eval)

lemma final_score_refutation:
  "calculateFinalScore [\<lparr>criteria = ''Refutation'', score = Finite (9 / 2), score_notes = []\<rparr>] =
     Finite (rnd (67 / 100))"
  unfolding calculateFinalScore_contributions by (simp only: example_eval)

lemma final_score_three:
  "calculateFinalScore
     [\<lparr>criteria = ''POSITIONING!!'', score = Finite 4, score_notes = []\<rparr>,
      \<lparr>criteria = ''Tone_'', score = Finite 5, score_notes = []\<rparr>,
      \<lparr>criteria = ''Refutation'', score = Finite (9 / 2), score_notes = []\<rparr>] =
     Finite (rnd (107 / 100))"
  unfolding calculateFinalScore_contributions by (simp only: example_eval)



subsection \<open>The final score\<close>

lemma underscore_code: "(of_char c = (95::nat)) = (c = CHR ''_'')"
  by (cases c) (auto simp: Let_def)

lemma word_char_alnum:
  assumes "c \<noteq> CHR ''_''"
  shows "is_word_char c = is_alnum c"
  using assms by (auto simp: is_word_char_def is_alnum_def Let_def underscore_code)

lemma lower_underscore:
  assumes "c \<noteq> CHR ''_''"
  shows "toLowerCase_char c \<noteq> CHR ''_''"
proof (cases "is_upper c")
  case False
  with assms show ?thesis by (simp add: toLowerCase_char_def)
next
  case True
  then show ?thesis by (cases c) (simp add: toLowerCase_char_def)
qed

lemma strip_alnum:
  assumes "CHR ''_'' \<notin> set s"
  shows "strip_punctuation (toLowerCase s) =
           filter (\<lambda>c. is_alnum c \<or> is_js_space c) (toLowerCase s)"
proof -
  have "(is_word_char c \<or> is_js_space c) = (is_alnum c \<or> is_js_space c)"
    if "c \<in> set (toLowerCase s)" for c
  proof -
    from that obtain d where "d \<in> set s" "c = toLowerCase_char d"
      unfolding toLowerCase_def by auto
    with assms have "c \<noteq> CHR ''_''" using lower_underscore [of d] by auto
    from word_char_alnum [OF this] show ?thesis by simp
  qed
  then show ?thesis unfolding strip_punctuation_def by (intro filter_cong refl)
qed

lemma find_pairs:
  "map_of (map (\<lambda>kw. (f (fst kw), snd kw)) t) n =
     map_option snd (List.find (\<lambda>kw. f (fst kw) = n) t)"
  by (induction t) auto

lemma contribution_weighted_score:
  assumes "CHR ''_'' \<notin> set (criteria s)"
  shows "contribution s = weighted_score s"
  unfolding contribution_def weighted_score_def find_pairs strip_alnum [OF assms]
  by (cases "List.find (\<lambda>kw. toLowerCase (fst kw) =
        filter (\<lambda>c. is_alnum c \<or> is_js_space c) (toLowerCase (criteria s))) scoreWeights")
     simp_all

lemma contributions_weighted_scores:
  assumes "\<forall>s\<in>set scores. CHR ''_'' \<notin> set (criteria s)"
  shows "map contribution scores = map weighted_score scores"
  using assms by (simp add: contribution_weighted_score)

lemma contribution_unknown:
  "contribution \<lparr>criteria = ''Style'', score = x, score_notes = n\<rparr> = []"
  by (simp add: contribution_def scoreWeights_def str_eval)

text \<open>
  C3, as stated, fails, in two ways. The products and the sum are those of doubles: 4.5
  times the weight 0.15 is a double just below 0.675, which \<open>toFixed\<close> writes as 0.67,
  where the exact product 0.675 rounds to 0.68. And the pattern \<open>[^\w\s]\<close> keeps the
  underscore, so the criterion "Tone_" matches no key and adds nothing, where the stated
  matching removes the underscore and finds the weight 0.05; the comment above the line
  says that the match ignores case and punctuation.
\<close>

theorem underscore_and_rounding_differ:
  "calculateFinalScore [\<lparr>criteria = ''Tone_'', score = Finite 5, score_notes = []\<rparr>] = Finite 0 \<and>
   spec_finalScore [(''Tone_'', 5)] = 1 / 4 \<and>
   calculateFinalScore [\<lparr>criteria = ''Refutation'', score = Finite (9 / 2), score_notes = []\<rparr>] =
     Finite (rnd (67 / 100)) \<and>
   spec_finalScore [(''Refutation'', 9 / 2)] = 68 / 100 \<and>
   rnd (67 / 100) < 68 / 100"
proof -
  have b: "spec_finalScore [(''Tone_'', 5)] = 1 / 4"
    using example_spec(1) by (simp add: spec_finalScore_def spec_weight_underscore)
  have d: "spec_finalScore [(''Refutation'', 9 / 2)] = 68 / 100"
    using example_spec(2) by (simp add: spec_finalScore_def spec_weight_refutation)
  from final_score_underscore b final_score_refutation d example_spec(3) show ?thesis by blast
qed

text \<open>
  C3, amended. For every list of items whose criteria contain no underscore,
  \<open>calculateFinalScore\<close> returns \<open>toFixed2\<close> of the sum, accumulated from 0 in the order of
  the list in double arithmetic, of the double products of score and weight of the
  matched items. An item is matched to the first key whose lowercase form equals the
  criterion, lowercased and stripped of every character that is neither a letter from A
  to Z or from a to z, a digit nor white space; an item that matches no key adds nothing.
  \<open>toFixed2\<close> rounds to two decimals, half away from zero, and takes the nearest double.
  Nothing is said about a criterion that contains an underscore.
\<close>

theorem final_score_weighted_sum:
  assumes "\<forall>s\<in>set scores. CHR ''_'' \<notin> set (criteria s)"
  shows "calculateFinalScore scores =
           toFixed2 (foldl fadd (Finite 0) (concat (map weighted_score scores)))"
  unfolding calculateFinalScore_contributions contributions_weighted_scores [OF assms]
  by (rule refl)

theorem final_score_weighted_sum_witness:
  "calculateFinalScore
     [\<lparr>criteria = ''POSITIONING!!'', score = Finite 4, score_notes = []\<rparr>,
      \<lparr>criteria = ''Style'', score = Finite 5, score_notes = []\<rparr>,
      \<lparr>criteria = ''Refutation'', score = Finite (9 / 2), score_notes = []\<rparr>] =
     Finite (rnd (107 / 100)) \<and>
   concat (map weighted_score
     [\<lparr>criteria = ''POSITIONING!!'', score = Finite 4, score_notes = []\<rparr>,
      \<lparr>criteria = ''Style'', score = Finite 5, score_notes = []\<rparr>,
      \<lparr>criteria = ''Refutation'', score = Finite (9 / 2), score_notes = []\<rparr>]) =
     [Finite (3602879701896397 / 9007199254740992), Finite (6079859496950169 / 9007199254740992)]"
proof -
  let ?scores = "[\<lparr>criteria = ''POSITIONING!!'', score = Finite 4, score_notes = []\<rparr>,
      \<lparr>criteria = ''Style'', score = Finite 5, score_notes = []\<rparr>,
      \<lparr>criteria = ''Refutation'', score = Finite (9 / 2), score_notes = []\<rparr>]"
  have h: "\<forall>s\<in>set ?scores. CHR ''_'' \<notin> set (criteria s)" by simp
  have w: "concat (map weighted_score ?scores) =
      [Finite (3602879701896397 / 9007199254740992), Finite (6079859496950169 / 9007199254740992)]"
    unfolding contributions_weighted_scores [OF h, symmetric]
    by (simp only: example_eval contribution_unknown)
  from final_score_weighted_sum [OF h] w show ?thesis
    by (simp only: example_eval foldl.simps simp_thms)
qed

subsection \<open>The range of the final score\<close>

text \<open>
  C10. When every score of the list lies between 0 and 5 and no key of the weight table is
  found for two items, the final score lies between 0 and 5.
\<close>

theorem final_score_within_bounds:
  assumes "\<forall>s\<in>set scores. is_between (score s) 0 5"
    and "distinct (List.map_filter (\<lambda>s. findKey (criteria s)) scores)"
  shows "is_between (calculateFinalScore scores) 0 5"
  using assms by (rule final_score_bound)

theorem final_score_within_bounds_witness:
  "is_between (calculateFinalScore
     [\<lparr>criteria = ''POSITIONING!!'', score = Finite 4, score_notes = []\<rparr>,
      \<lparr>criteria = ''Tone_'', score = Finite 5, score_notes = []\<rparr>,
      \<lparr>criteria = ''Refutation'', score = Finite (9 / 2), score_notes = []\<rparr>]) 0 5"
proof -
  let ?scores = "[\<lparr>criteria = ''POSITIONING!!'', score = Finite 4, score_notes = []\<rparr>,
      \<lparr>criteria = ''Tone_'', score = Finite 5, score_notes = []\<rparr>,
      \<lparr>criteria = ''Refutation'', score = Finite (9 / 2), score_notes = []\<rparr>]"
  have k: "List.map_filter (\<lambda>s. findKey (criteria s)) ?scores = [''Positioning'', ''Refutation'']"
    by (simp add: List.map_filter_simps findKey_def scoreWeights_def str_eval)
  have "\<forall>s\<in>set ?scores. is_between (score s) 0 5" by (simp add: is_between_def)
  moreover have "distinct (List.map_filter (\<lambda>s. findKey (criteria s)) ?scores)"
    unfolding k by simp
  ultimately show ?thesis by (rule final_score_within_bounds)
qed

subsection \<open>The winner\<close>










end
